theory Spec2Isabelle
  imports Complex_Main "HOL-Library.Multiset" "HOL-Library.AList"
begin

section \<open>Data model\<close>

text \<open>
  Layers are Python objects compared by identity. A layer is modelled by its address, a
  natural number, and the object graph by a heap: the list of all layer objects, the
  object with address \<open>n\<close> at position \<open>n\<close>. Every attribute that one of the
  four classes \<open>Input\<close>, \<open>Hidden\<close>, \<open>Softmax\<close>, \<open>CrossEntropy\<close> assigns is a field
  of the record; a class that does not define an attribute leaves the field unused, and the
  operations below raise \<open>AttributeError\<close> where the source reads an attribute that
  the object's class does not have.

  numpy arrays of float64 are nested lists of reals: the arithmetic is the exact one, so
  rounding, overflow and the values inf and nan (the logarithm of a number that is not
  positive, the mean of an empty array) are outside the model. A two-dimensional
  array is the list of its rows. An array is a value of its own: the arrays that the
  constructors allocate are distinct objects, and the arrays that the caller passes in
  (weights, batches, trainables) are taken not to share memory with them or with each other.
  A run that raises is the error alone; the objects it had changed before are not traced. The dimensions that the constructors read off
  \<open>W.shape\<close> are the fields \<open>num_images\<close>, \<open>num_features\<close>, \<open>num_neurons\<close>
  and \<open>num_classes\<close>. For a \<open>Hidden\<close> layer, \<open>num_features\<close> holds
  \<open>input_layer.num_neurons\<close>, the row width with which its constructor allocates
  \<open>W_gradients\<close> and \<open>gradients\<close>.
\<close>

datatype py_error = AttributeError | IndexError | KeyError | TypeError | ValueError

datatype kind = Input | Hidden | Softmax | CrossEntropy

text \<open>What the attribute \<open>value\<close> of a layer holds: a two-dimensional array, or for a
  \<open>CrossEntropy\<close> layer the float that \<open>np.mean\<close> returns.\<close>

datatype pyval = Scalar real | Array2 "real list list"

record layer =
  kind :: kind
  input_layer :: "nat option"
  outbound_layers :: "nat list"
  X :: "pyval option"
  W :: "real list list list"
  biases :: "real list list"
  num_images :: nat
  num_features :: nat
  num_neurons :: nat
  num_classes :: nat
  layer_value :: "real list list"
  W_gradients :: "real list list"
  b_gradients :: "real list"
  gradients :: "real list list"
  input_gradients :: "real list list"
  ideal_output :: "real list list option"
  softmax :: "pyval"
  tmp_value :: "real list"
  loss_value :: "real option"

type_synonym heap = "layer list"

text \<open>The feed dictionary, in insertion order, and the adjacency dictionary \<open>G\<close> of
  \<open>topological_sort\<close>: each key maps to its \<open>in\<close> set and its \<open>out\<close> set. A
  Python set is a list without repetition.\<close>

type_synonym feed_dict = "(nat \<times> real list list) list"

type_synonym graph = "(nat \<times> (nat list \<times> nat list)) list"

section \<open>The topological scheduler\<close>

text \<open>The inner loop of the first phase (lines 245 to 250): for each successor \<open>m\<close> of
  \<open>n\<close>, create \<open>G[m]\<close> if it is missing, add the edge to both sets, and append
  \<open>m\<close> to the work list, whether or not it was seen before.\<close>

fun add_edges :: "nat \<Rightarrow> nat list \<Rightarrow> graph \<times> nat list \<Rightarrow> py_error + (graph \<times> nat list)" where
  "add_edges n [] (G, layers) = Inr (G, layers)"
| "add_edges n (m # ms) (G, layers) =
     (let G1 = (if map_of G m = None then G @ [(m, ([], []))] else G) in
      case map_of G1 n of
        None \<Rightarrow> Inl KeyError
      | Some (i_n, o_n) \<Rightarrow>
          (let G2 = AList.update n (i_n, List.insert m o_n) G1 in
           case map_of G2 m of
             None \<Rightarrow> Inl KeyError
           | Some (i_m, o_m) \<Rightarrow>
               add_edges n ms (AList.update m (List.insert n i_m, o_m) G2, layers @ [m])))"

text \<open>The first phase (lines 241 to 250). The work list is never checked against the
  nodes already expanded, so the loop need not end: the result \<open>None\<close> is a run that
  never leaves the loop.\<close>

partial_function (option) build_graph :: "heap \<Rightarrow> nat list \<Rightarrow> graph \<Rightarrow> (py_error + graph) option" where
  "build_graph h layers G =
     (case layers of
        [] \<Rightarrow> Some (Inr G)
      | n # rest \<Rightarrow>
          (let G1 = (if map_of G n = None then G @ [(n, ([], []))] else G) in
           case add_edges n (outbound_layers (h ! n)) (G1, rest) of
             Inl e \<Rightarrow> Some (Inl e)
           | Inr (G2, layers2) \<Rightarrow> build_graph h layers2 G2))"

text \<open>Data injection (lines 257 to 262): an \<open>Input\<close> node receives its batch from the
  feed dictionary, a \<open>CrossEntropy\<close> node the target labels (and the attribute
  \<open>n_inputs\<close>, which nothing reads and the model leaves out).\<close>

definition inject :: "feed_dict \<Rightarrow> real list list \<Rightarrow> nat \<Rightarrow> heap \<Rightarrow> py_error + heap" where
  "inject feed ideal n h =
     (if kind (h ! n) = Input then
        (case map_of feed n of
           None \<Rightarrow> Inl KeyError
         | Some images \<Rightarrow> Inr (h[n := (h ! n)\<lparr>X := Some (Array2 images)\<rparr>]))
      else if kind (h ! n) = CrossEntropy then
        Inr (h[n := (h ! n)\<lparr>ideal_output := Some ideal\<rparr>])
      else Inr h)"

text \<open>The inner loop of the second phase (lines 265 to 270). \<open>set.remove\<close> raises
  \<open>KeyError\<close> when the element is absent.\<close>

fun remove_edges :: "nat \<Rightarrow> nat list \<Rightarrow> graph \<times> nat list \<Rightarrow> py_error + (graph \<times> nat list)" where
  "remove_edges n [] (G, S) = Inr (G, S)"
| "remove_edges n (m # ms) (G, S) =
     (case map_of G n of
        None \<Rightarrow> Inl KeyError
      | Some (i_n, o_n) \<Rightarrow>
          if m \<notin> set o_n then Inl KeyError
          else
            (let G1 = AList.update n (i_n, remove1 m o_n) G in
             case map_of G1 m of
               None \<Rightarrow> Inl KeyError
             | Some (i_m, o_m) \<Rightarrow>
                 if n \<notin> set i_m then Inl KeyError
                 else
                   (let i_m' = remove1 n i_m;
                        G2 = AList.update m (i_m', o_m) G1
                    in remove_edges n ms (G2, if i_m' = [] then List.insert m S else S))))"

definition total_out :: "graph \<Rightarrow> nat" where
  "total_out G = sum_list (map (\<lambda>(k, (i, out)). length out) G)"

lemma total_out_update:
  "map_of G n = Some (i, out) \<Longrightarrow>
   total_out (AList.update n (i', out') G) + length out = total_out G + length out'"
  by (induction G) (auto simp: total_out_def)

lemma remove_edges_total_out:
  "remove_edges n ms (G, S) = Inr (G', S') \<Longrightarrow> total_out G' + length ms = total_out G"
proof (induction ms arbitrary: G S)
  case Nil
  then show ?case by simp
next
  case (Cons m ms)
  from Cons.prems obtain i_n o_n where n: "map_of G n = Some (i_n, o_n)" and mo: "m \<in> set o_n"
    by (auto split: option.splits if_splits)
  define G1 where "G1 = AList.update n (i_n, remove1 m o_n) G"
  from Cons.prems n mo obtain i_m o_m where m: "map_of G1 m = Some (i_m, o_m)" and ni: "n \<in> set i_m"
    by (auto simp: G1_def Let_def split: option.splits if_splits)
  define G2 where "G2 = AList.update m (remove1 n i_m, o_m) G1"
  from Cons.prems n mo m ni
  have "remove_edges n ms (G2, if remove1 n i_m = [] then List.insert m S else S) = Inr (G', S')"
    by (simp add: G1_def G2_def Let_def)
  from Cons.IH [OF this] have 1: "total_out G' + length ms = total_out G2" .
  have 2: "total_out G2 + length o_m = total_out G1 + length o_m"
    unfolding G2_def using total_out_update [OF m] .
  have 3: "total_out G1 + length o_n = total_out G + length (remove1 m o_n)"
    unfolding G1_def using total_out_update [OF n] .
  have "length (remove1 m o_n) + 1 = length o_n"
    using mo by (simp add: length_remove1) (metis Suc_pred length_pos_if_in_set)
  with 1 2 3 show ?case by simp
qed

text \<open>The second phase (lines 252 to 271). \<open>S.pop()\<close> removes an arbitrary element:
  the choice is the parameter \<open>pick\<close>, which sees the order built so far and the ready
  set, and whose result is read as a position in the ready set. Every run of the source is
  the run of the model for some \<open>pick\<close>.\<close>

function kahn :: "(nat list \<Rightarrow> nat list \<Rightarrow> nat) \<Rightarrow> feed_dict \<Rightarrow> real list list \<Rightarrow>
    heap \<times> nat list \<times> nat list \<times> graph \<Rightarrow> py_error + (heap \<times> nat list)" where
  "kahn pick feed ideal (h, L, S, G) =
     (if S = [] then Inr (h, L)
      else
        (let k = pick L S mod length S;
             n = S ! k;
             S1 = take k S @ drop (Suc k) S
         in case inject feed ideal n h of
              Inl e \<Rightarrow> Inl e
            | Inr h1 \<Rightarrow>
                (case remove_edges n (outbound_layers (h1 ! n)) (G, S1) of
                   Inl e \<Rightarrow> Inl e
                 | Inr (G', S') \<Rightarrow> kahn pick feed ideal (h1, L @ [n], S', G'))))"
  by pat_completeness auto
termination
proof (relation "inv_image (less_than <*lex*> less_than)
    (\<lambda>(pick, feed, ideal, (h, L, S, G)). (total_out G, length S))", goal_cases)
  case 1
  then show ?case by (intro wf_inv_image wf_lex_prod wf_less_than)
next
  case (2 pick feed ideal h L S G k n S1 h1 x G' S')
  from 2 have r: "remove_edges n (outbound_layers (h1 ! n)) (G, S1) = Inr (G', S')"
    by simp
  from remove_edges_total_out [OF r]
  have t: "total_out G' + length (outbound_layers (h1 ! n)) = total_out G" .
  show ?case
  proof (cases "outbound_layers (h1 ! n)")
    case Nil
    with r have "G' = G" "S' = S1" by simp_all
    moreover have k: "k < length S"
      using 2 by simp
    have "length S1 = k + (length S - Suc k)"
      using 2 k by (simp only: length_append length_take length_drop min_absorb2 less_imp_le)
    with k have "length S1 < length S"
      by arith
    ultimately show ?thesis by simp
  next
    case (Cons a list)
    with t have "total_out G' < total_out G" by simp
    then show ?thesis by simp
  qed
qed

text \<open>\<open>topological_sort\<close> (lines 227 to 271). The result \<open>None\<close> is a run that
  never returns; \<open>Some (Inl e)\<close> is a run that raises \<open>e\<close>; \<open>Some (Inr (h', L))\<close>
  returns the list \<open>L\<close> and leaves the objects as in \<open>h'\<close>.\<close>

definition topological_sort :: "(nat list \<Rightarrow> nat list \<Rightarrow> nat) \<Rightarrow> heap \<Rightarrow> feed_dict \<Rightarrow>
    real list list \<Rightarrow> (py_error + (heap \<times> nat list)) option" where
  "topological_sort pick h feed ideal =
     (let input_layers = map fst feed in
      case build_graph h input_layers [] of
        None \<Rightarrow> None
      | Some (Inl e) \<Rightarrow> Some (Inl e)
      | Some (Inr G) \<Rightarrow> Some (kahn pick feed ideal (h, [], remdups input_layers, G)))"


section \<open>numpy on rows\<close>

text \<open>\<open>np.dot\<close> of a vector of shape \<open>(F,)\<close> and a matrix of shape \<open>(F, n)\<close>,
  of a matrix of shape \<open>(F, n)\<close> and a vector of shape \<open>(n,)\<close>, and of two vectors.
  numpy raises \<open>ValueError\<close> when the contracted axes differ. The number of columns
  \<open>n\<close> of the matrix is the last axis of \<open>W\<close>, which the constructors store.\<close>

definition dot_vm :: "nat \<Rightarrow> real list \<Rightarrow> real list list \<Rightarrow> py_error + real list" where
  "dot_vm n x w =
     (if length x \<noteq> length w then Inl ValueError
      else Inr (map (\<lambda>j. sum_list (map (\<lambda>k. x ! k * w ! k ! j) [0..<length x])) [0..<n]))"

definition dot_mv :: "nat \<Rightarrow> real list list \<Rightarrow> real list \<Rightarrow> py_error + real list" where
  "dot_mv n w g =
     (if n \<noteq> length g then Inl ValueError
      else Inr (map (\<lambda>r. sum_list (map (\<lambda>j. r ! j * g ! j) [0..<n])) w))"

definition dot_vv :: "real list \<Rightarrow> real list \<Rightarrow> py_error + real" where
  "dot_vv a b =
     (if length a \<noteq> length b then Inl ValueError
      else Inr (sum_list (map (\<lambda>j. a ! j * b ! j) [0..<length a])))"

text \<open>An elementwise operation on two vectors, with numpy's broadcasting: equal lengths,
  or one of the two of length 1.\<close>

definition broadcast2 :: "(real \<Rightarrow> real \<Rightarrow> real) \<Rightarrow> real list \<Rightarrow> real list \<Rightarrow> py_error + real list" where
  "broadcast2 f a b =
     (if length a = length b then Inr (map (\<lambda>j. f (a ! j) (b ! j)) [0..<length a])
      else if length a = 1 then Inr (map (\<lambda>y. f (a ! 0) y) b)
      else if length b = 1 then Inr (map (\<lambda>x. f x (b ! 0)) a)
      else Inl ValueError)"

text \<open>\<open>a[i] = r\<close> for a two-dimensional \<open>a\<close> and a vector \<open>r\<close>: the row keeps its
  width; a vector of length 1 is broadcast.\<close>

definition set_row :: "real list list \<Rightarrow> nat \<Rightarrow> real list \<Rightarrow> py_error + real list list" where
  "set_row a i r =
     (if length a \<le> i then Inl IndexError
      else if length r = length (a ! i) then Inr (a[i := r])
      else if length r = 1 then Inr (a[i := replicate (length (a ! i)) (r ! 0)])
      else Inl ValueError)"

text \<open>\<open>a[i]\<close> for an attribute that holds a value, and for \<open>X\<close>, which is
  \<open>None\<close> until it is set.\<close>

definition subscript :: "pyval \<Rightarrow> nat \<Rightarrow> py_error + real list" where
  "subscript v i =
     (case v of
        Scalar x \<Rightarrow> Inl IndexError
      | Array2 a \<Rightarrow> if i < length a then Inr (a ! i) else Inl IndexError)"

definition subscript_opt :: "pyval option \<Rightarrow> nat \<Rightarrow> py_error + real list" where
  "subscript_opt v i = (case v of None \<Rightarrow> Inl TypeError | Some a \<Rightarrow> subscript a i)"

definition nth_row :: "'a list \<Rightarrow> nat \<Rightarrow> py_error + 'a" where
  "nth_row a i = (if i < length a then Inr (a ! i) else Inl IndexError)"

text \<open>Reading the attributes \<open>value\<close> and \<open>gradients\<close> of another layer. A
  \<open>CrossEntropy\<close> layer has no \<open>value\<close> before its \<open>forward\<close> has run, and never
  has \<open>gradients\<close> (its \<open>backward\<close> assigns \<open>gradient\<close>).\<close>

definition read_value :: "layer \<Rightarrow> py_error + pyval" where
  "read_value l =
     (if kind l = CrossEntropy then
        (case loss_value l of None \<Rightarrow> Inl AttributeError | Some v \<Rightarrow> Inr (Scalar v))
      else Inr (Array2 (layer_value l)))"

definition read_gradients :: "layer \<Rightarrow> py_error + real list list" where
  "read_gradients l = (if kind l = CrossEntropy then Inl AttributeError else Inr (gradients l))"

section \<open>The layers\<close>

text \<open>The loop of \<open>Input.forward\<close> and \<open>Hidden.forward\<close> (lines 60 to 62 and 93 to
  95), over the indices still to do. \<open>n\<close> is \<open>W.shape[-1]\<close>.\<close>

fun affine_rows :: "nat \<Rightarrow> pyval option \<Rightarrow> real list list list \<Rightarrow> real list list \<Rightarrow> nat list \<Rightarrow>
    real list list \<Rightarrow> py_error + real list list" where
  "affine_rows n x w b [] v = Inr v"
| "affine_rows n x w b (i # rest) v =
     (case subscript_opt x i of
        Inl e \<Rightarrow> Inl e
      | Inr xi \<Rightarrow>
          (case nth_row w i of
             Inl e \<Rightarrow> Inl e
           | Inr wi \<Rightarrow>
               (case dot_vm n xi wi of
                  Inl e \<Rightarrow> Inl e
                | Inr hh \<Rightarrow>
                    (case nth_row b i of
                       Inl e \<Rightarrow> Inl e
                     | Inr bi \<Rightarrow>
                         (case broadcast2 (+) hh bi of
                            Inl e \<Rightarrow> Inl e
                          | Inr r \<Rightarrow>
                              (case set_row v i r of
                                 Inl e \<Rightarrow> Inl e
                               | Inr v' \<Rightarrow> affine_rows n x w b rest v'))))))"

definition Input_forward :: "layer \<Rightarrow> py_error + layer" where
  "Input_forward l =
     (case affine_rows (num_neurons l) (X l) (W l) (biases l) [0..<num_images l] (layer_value l) of
        Inl e \<Rightarrow> Inl e
      | Inr v \<Rightarrow> Inr (l\<lparr>layer_value := v\<rparr>))"

text \<open>\<open>Hidden.forward\<close> (lines 90 to 95) first reads the predecessor's
  \<open>value\<close>; \<open>None.value\<close> raises \<open>AttributeError\<close>.\<close>

definition Hidden_forward :: "heap \<Rightarrow> layer \<Rightarrow> py_error + layer" where
  "Hidden_forward h l =
     (case input_layer l of
        None \<Rightarrow> Inl AttributeError
      | Some p \<Rightarrow>
          (case read_value (h ! p) of
             Inl e \<Rightarrow> Inl e
           | Inr x \<Rightarrow>
               (case affine_rows (num_classes l) (Some x) (W l) (biases l) [0..<num_images l]
                       (layer_value l) of
                  Inl e \<Rightarrow> Inl e
                | Inr v \<Rightarrow> Inr (l\<lparr>X := Some x, layer_value := v\<rparr>))))"

text \<open>The loop of \<open>Input.backward\<close> and \<open>Hidden.backward\<close> (lines 67 to 71 and 100 to
  104). \<open>W_gradients[i] * b_gradients[i]\<close> multiplies a row by a float.\<close>

fun gradient_rows :: "nat \<Rightarrow> real list list list \<Rightarrow> real list list \<Rightarrow> real list list \<Rightarrow> nat list \<Rightarrow>
    real list list \<times> real list \<times> real list list \<Rightarrow>
    py_error + (real list list \<times> real list \<times> real list list)" where
  "gradient_rows n w b g [] (wg, bg, gr) = Inr (wg, bg, gr)"
| "gradient_rows n w b g (i # rest) (wg, bg, gr) =
     (case nth_row w i of
        Inl e \<Rightarrow> Inl e
      | Inr wi \<Rightarrow>
          (case nth_row g i of
             Inl e \<Rightarrow> Inl e
           | Inr gi \<Rightarrow>
               (case dot_mv n wi gi of
                  Inl e \<Rightarrow> Inl e
                | Inr wv \<Rightarrow>
                    (case set_row wg i wv of
                       Inl e \<Rightarrow> Inl e
                     | Inr wg' \<Rightarrow>
                         (case nth_row b i of
                            Inl e \<Rightarrow> Inl e
                          | Inr bi \<Rightarrow>
                              (case dot_vv gi bi of
                                 Inl e \<Rightarrow> Inl e
                               | Inr s \<Rightarrow>
                                   if length bg \<le> i then Inl IndexError
                                   else
                                     (let bg' = bg[i := s] in
                                      case set_row gr i (map (\<lambda>x. x * bg' ! i) (wg' ! i)) of
                                        Inl e \<Rightarrow> Inl e
                                      | Inr gr' \<Rightarrow>
                                          gradient_rows n w b g rest (wg', bg', gr'))))))))"

text \<open>\<open>Input.backward\<close> and \<open>Hidden.backward\<close> (lines 64 to 71 and 97 to 104) are the
  same code but for the name of the attribute that holds \<open>W.shape[-1]\<close>.
  \<open>outbound_layers[0]\<close> raises \<open>IndexError\<close> on a layer without successor.\<close>

definition affine_backward :: "nat \<Rightarrow> heap \<Rightarrow> layer \<Rightarrow> py_error + layer" where
  "affine_backward n h l =
     (case outbound_layers l of
        [] \<Rightarrow> Inl IndexError
      | s # _ \<Rightarrow>
          (case read_gradients (h ! s) of
             Inl e \<Rightarrow> Inl e
           | Inr g \<Rightarrow>
               (case gradient_rows n (W l) (biases l) g [0..<num_images l]
                       (W_gradients l, b_gradients l, gradients l) of
                  Inl e \<Rightarrow> Inl e
                | Inr (wg, bg, gr) \<Rightarrow>
                    Inr (l\<lparr>input_gradients := g, W_gradients := wg, b_gradients := bg,
                           gradients := gr\<rparr>))))"

definition Input_backward :: "heap \<Rightarrow> layer \<Rightarrow> py_error + layer" where
  "Input_backward h l = affine_backward (num_neurons l) h l"

definition Hidden_backward :: "heap \<Rightarrow> layer \<Rightarrow> py_error + layer" where
  "Hidden_backward h l = affine_backward (num_classes l) h l"

text \<open>\<open>Softmax._softmax\<close> (line 141) on one row.\<close>

definition softmax_row :: "real list \<Rightarrow> real list" where
  "softmax_row x = map (\<lambda>e. e / sum_list (map exp x)) (map exp x)"

fun softmax_rows :: "pyval \<Rightarrow> nat list \<Rightarrow> real list list \<Rightarrow> py_error + real list list" where
  "softmax_rows x [] v = Inr v"
| "softmax_rows x (i # rest) v =
     (case subscript x i of
        Inl e \<Rightarrow> Inl e
      | Inr xi \<Rightarrow>
          (case set_row v i (softmax_row xi) of
             Inl e \<Rightarrow> Inl e
           | Inr v' \<Rightarrow> softmax_rows x rest v'))"

definition Softmax_forward :: "heap \<Rightarrow> layer \<Rightarrow> py_error + layer" where
  "Softmax_forward h l =
     (case input_layer l of
        None \<Rightarrow> Inl AttributeError
      | Some p \<Rightarrow>
          (case read_value (h ! p) of
             Inl e \<Rightarrow> Inl e
           | Inr x \<Rightarrow>
               (case softmax_rows x [0..<num_images l] (layer_value l) of
                  Inl e \<Rightarrow> Inl e
                | Inr v \<Rightarrow> Inr (l\<lparr>layer_value := v\<rparr>))))"

text \<open>\<open>Softmax.backward\<close> (lines 164 and 165): the transpose of a one-dimensional array is
  the array itself.\<close>

fun transpose_rows :: "real list list \<Rightarrow> nat list \<Rightarrow> real list list \<Rightarrow> py_error + real list list" where
  "transpose_rows v [] g = Inr g"
| "transpose_rows v (i # rest) g =
     (case nth_row v i of
        Inl e \<Rightarrow> Inl e
      | Inr vi \<Rightarrow>
          (case set_row g i vi of
             Inl e \<Rightarrow> Inl e
           | Inr g' \<Rightarrow> transpose_rows v rest g'))"

definition Softmax_backward :: "layer \<Rightarrow> py_error + layer" where
  "Softmax_backward l =
     (case transpose_rows (layer_value l) [0..<num_images l] (gradients l) of
        Inl e \<Rightarrow> Inl e
      | Inr g \<Rightarrow> Inr (l\<lparr>gradients := g\<rparr>))"

text \<open>The loop of \<open>CrossEntropy.forward\<close> (lines 192 and 193).\<close>

fun cross_entropy_rows :: "real list list option \<Rightarrow> pyval \<Rightarrow> nat list \<Rightarrow> real list \<Rightarrow>
    py_error + real list" where
  "cross_entropy_rows ideal sm [] t = Inr t"
| "cross_entropy_rows ideal sm (i # rest) t =
     (case ideal of
        None \<Rightarrow> Inl TypeError
      | Some y \<Rightarrow>
          (case nth_row y i of
             Inl e \<Rightarrow> Inl e
           | Inr yi \<Rightarrow>
               (case subscript sm i of
                  Inl e \<Rightarrow> Inl e
                | Inr si \<Rightarrow>
                    (case broadcast2 (*) yi (map ln si) of
                       Inl e \<Rightarrow> Inl e
                     | Inr prods \<Rightarrow>
                         if length t \<le> i then Inl IndexError
                         else cross_entropy_rows ideal sm rest (t[i := - sum_list prods])))))"

definition np_mean :: "real list \<Rightarrow> real" where
  "np_mean t = sum_list t / real (length t)"

definition CrossEntropy_forward :: "heap \<Rightarrow> layer \<Rightarrow> py_error + layer" where
  "CrossEntropy_forward h l =
     (case input_layer l of
        None \<Rightarrow> Inl AttributeError
      | Some p \<Rightarrow>
          (case read_value (h ! p) of
             Inl e \<Rightarrow> Inl e
           | Inr sm \<Rightarrow>
               (case cross_entropy_rows (ideal_output l) sm [0..<num_images l] (tmp_value l) of
                  Inl e \<Rightarrow> Inl e
                | Inr t \<Rightarrow> Inr (l\<lparr>softmax := sm, tmp_value := t, loss_value := Some (np_mean t)\<rparr>))))"

text \<open>\<open>CrossEntropy.backward\<close> (line 201) assigns \<open>None\<close> to the attribute
  \<open>gradient\<close>, which nothing reads: no field of the model changes.\<close>

definition CrossEntropy_backward :: "layer \<Rightarrow> py_error + layer" where
  "CrossEntropy_backward l = Inr l"

text \<open>\<open>n.forward()\<close> and \<open>n.backward()\<close> on the object at address \<open>n\<close>, by its
  class.\<close>

definition forward :: "heap \<Rightarrow> nat \<Rightarrow> py_error + heap" where
  "forward h n =
     (case (case kind (h ! n) of
              Input \<Rightarrow> Input_forward (h ! n)
            | Hidden \<Rightarrow> Hidden_forward h (h ! n)
            | Softmax \<Rightarrow> Softmax_forward h (h ! n)
            | CrossEntropy \<Rightarrow> CrossEntropy_forward h (h ! n)) of
        Inl e \<Rightarrow> Inl e
      | Inr l \<Rightarrow> Inr (h[n := l]))"

definition backward :: "heap \<Rightarrow> nat \<Rightarrow> py_error + heap" where
  "backward h n =
     (case (case kind (h ! n) of
              Input \<Rightarrow> Input_backward h (h ! n)
            | Hidden \<Rightarrow> Hidden_backward h (h ! n)
            | Softmax \<Rightarrow> Softmax_backward (h ! n)
            | CrossEntropy \<Rightarrow> CrossEntropy_backward (h ! n)) of
        Inl e \<Rightarrow> Inl e
      | Inr l \<Rightarrow> Inr (h[n := l]))"

section \<open>The training driver\<close>

text \<open>A trainable or a harvested gradient: an array of any rank, as its shape and its
  entries in row-major order.\<close>

record ndarray =
  shape :: "nat list"
  entries :: "real list"

fun forward_all :: "heap \<Rightarrow> nat list \<Rightarrow> py_error + heap" where
  "forward_all h [] = Inr h"
| "forward_all h (n # ns) =
     (case forward h n of Inl e \<Rightarrow> Inl e | Inr h' \<Rightarrow> forward_all h' ns)"

fun backward_all :: "heap \<Rightarrow> nat list \<Rightarrow> py_error + heap" where
  "backward_all h [] = Inr h"
| "backward_all h (n # ns) =
     (case backward h n of Inl e \<Rightarrow> Inl e | Inr h' \<Rightarrow> backward_all h' ns)"

text \<open>Line 326: the pair \<open>(layer.W_gradients, layer.b_gradients)\<close> of every layer of the
  list, flattened. Only \<open>Input\<close> and \<open>Hidden\<close> layers have the two attributes; the
  arrays have the shapes with which the constructors allocate them.\<close>

fun partials_of :: "heap \<Rightarrow> nat list \<Rightarrow> py_error + ndarray list" where
  "partials_of h [] = Inr []"
| "partials_of h (n # ns) =
     (if kind (h ! n) = Softmax \<or> kind (h ! n) = CrossEntropy then Inl AttributeError
      else
        (case partials_of h ns of
           Inl e \<Rightarrow> Inl e
         | Inr ps \<Rightarrow>
             Inr (\<lparr>shape = [num_images (h ! n), num_features (h ! n)],
                    entries = concat (W_gradients (h ! n))\<rparr>
                  # \<lparr>shape = [num_images (h ! n)], entries = b_gradients (h ! n)\<rparr>
                  # ps)))"

text \<open>The update loop (lines 328 to 331), over the positions still to do. The comparison
  reads \<open>trainables[n]\<close>, then \<open>partials[n]\<close>.\<close>

fun sgd_update :: "real \<Rightarrow> ndarray list \<Rightarrow> nat list \<Rightarrow> ndarray list \<Rightarrow> py_error + ndarray list" where
  "sgd_update learning_rate partials [] trainables = Inr trainables"
| "sgd_update learning_rate partials (n # ns) trainables =
     (if length trainables \<le> n then Inl IndexError
      else if length partials \<le> n then Inl IndexError
      else if shape (trainables ! n) = shape (partials ! n) then
        sgd_update learning_rate partials ns
          (trainables[n := (trainables ! n)\<lparr>entries :=
             map (\<lambda>j. entries (trainables ! n) ! j - learning_rate * entries (partials ! n) ! j)
               [0..<length (entries (trainables ! n))]\<rparr>])
      else sgd_update learning_rate partials ns trainables)"

text \<open>\<open>train_SGD\<close> (lines 298 to 333). It returns \<open>sorted_layers[-1].value\<close>; the
  model returns with it the objects and the trainables as the call leaves them.\<close>

definition train_SGD :: "(nat list \<Rightarrow> nat list \<Rightarrow> nat) \<Rightarrow> heap \<Rightarrow> feed_dict \<Rightarrow> real list list \<Rightarrow>
    ndarray list \<Rightarrow> real \<Rightarrow> (py_error + (heap \<times> ndarray list \<times> pyval)) option" where
  "train_SGD pick h feed ideal trainables learning_rate =
     (case topological_sort pick h feed ideal of
        None \<Rightarrow> None
      | Some (Inl e) \<Rightarrow> Some (Inl e)
      | Some (Inr (h1, sorted_layers)) \<Rightarrow>
          Some
            (case forward_all h1 sorted_layers of
               Inl e \<Rightarrow> Inl e
             | Inr h2 \<Rightarrow>
                 (case backward_all h2 (rev sorted_layers) of
                    Inl e \<Rightarrow> Inl e
                  | Inr h3 \<Rightarrow>
                      (case partials_of h3 (take (length sorted_layers - 2) sorted_layers) of
                         Inl e \<Rightarrow> Inl e
                       | Inr partials \<Rightarrow>
                           (case sgd_update learning_rate partials [0..<length trainables]
                                   trainables of
                              Inl e \<Rightarrow> Inl e
                            | Inr trainables' \<Rightarrow>
                                if sorted_layers = [] then Inl IndexError
                                else
                                  (case read_value (h3 ! last sorted_layers) of
                                     Inl e \<Rightarrow> Inl e
                                   | Inr v \<Rightarrow> Inr (h3, trainables', v)))))))"


section \<open>Construction\<close>

text \<open>A new object takes the next free address. \<open>np.empty\<close> leaves the contents of an
  array unspecified; the model fills it with zeros.\<close>

definition blank :: "kind \<Rightarrow> layer" where
  "blank k = \<lparr>kind = k, input_layer = None, outbound_layers = [], X = None, W = [], biases = [],
     num_images = 0, num_features = 0, num_neurons = 0, num_classes = 0, layer_value = [],
     W_gradients = [], b_gradients = [], gradients = [], input_gradients = [],
     ideal_output = None, softmax = Array2 [], tmp_value = [], loss_value = None\<rparr>"

definition np_empty2 :: "nat \<Rightarrow> nat \<Rightarrow> real list list" where
  "np_empty2 a b = replicate a (replicate b 0)"

text \<open>\<open>Layer.__init__\<close> (lines 15 to 21) for the new object \<open>self\<close>. A layer object
  is true in a condition, so the test of line 20 is whether a predecessor was given.\<close>

definition Layer_init :: "heap \<Rightarrow> layer \<Rightarrow> nat option \<Rightarrow> heap" where
  "Layer_init h self p =
     (let h1 = h @ [self\<lparr>input_layer := p, outbound_layers := []\<rparr>] in
      case p of
        None \<Rightarrow> h1
      | Some q \<Rightarrow> h1[q := (h1 ! q)\<lparr>outbound_layers := outbound_layers (h1 ! q) @ [length h]\<rparr>])"

text \<open>The constructors of the four classes. The weights come with their shape
  \<open>(W.shape[0], W.shape[1], W.shape[-1])\<close>. A constructor that raises has already run
  \<open>Layer.__init__\<close>: the heap it leaves holds the new object, wired, with the attributes
  assigned so far. The result is the heap and the address of the new object, or the
  error.\<close>

definition Input_init :: "heap \<Rightarrow> nat \<times> nat \<times> nat \<Rightarrow> real list list list \<Rightarrow> real list list \<Rightarrow>
    heap \<times> (py_error + nat)" where
  "Input_init h W_shape weights bias =
     (case W_shape of (b, f, n) \<Rightarrow>
        (let a = length h; h1 = Layer_init h (blank Input) None in
         (h1[a := (h1 ! a)\<lparr>X := None, W := weights, biases := bias, num_neurons := n,
                  num_images := b, num_features := f, W_gradients := np_empty2 b f,
                  b_gradients := replicate b 0, gradients := np_empty2 b f,
                  layer_value := np_empty2 b n\<rparr>],
          Inr a)))"

definition Hidden_init :: "heap \<Rightarrow> nat option \<Rightarrow> nat \<times> nat \<times> nat \<Rightarrow> real list list list \<Rightarrow>
    real list list \<Rightarrow> heap \<times> (py_error + nat)" where
  "Hidden_init h p W_shape weights bias =
     (case W_shape of (b, f, n) \<Rightarrow>
        (let a = length h; h1 = Layer_init h (blank Hidden) p;
             h2 = h1[a := (h1 ! a)\<lparr>X := None, W := weights, biases := bias, num_classes := n\<rparr>]
         in case p of
              None \<Rightarrow> (h2, Inl AttributeError)
            | Some q \<Rightarrow>
                (let m = num_images (h2 ! q);
                     h3 = h2[a := (h2 ! a)\<lparr>num_images := m, layer_value := np_empty2 m n\<rparr>]
                 in if kind (h3 ! q) \<noteq> Input then (h3, Inl AttributeError)
                    else
                      (h3[a := (h3 ! a)\<lparr>num_features := num_neurons (h3 ! q),
                              W_gradients := np_empty2 m (num_neurons (h3 ! q)),
                              b_gradients := replicate m 0,
                              gradients := np_empty2 m (num_neurons (h3 ! q))\<rparr>],
                       Inr a))))"

definition Softmax_init :: "heap \<Rightarrow> nat option \<Rightarrow> heap \<times> (py_error + nat)" where
  "Softmax_init h p =
     (let a = length h; h1 = Layer_init h (blank Softmax) p
      in case p of
           None \<Rightarrow> (h1, Inl AttributeError)
         | Some q \<Rightarrow>
             if kind (h1 ! q) = Input then (h1, Inl AttributeError)
             else
               (let c = num_classes (h1 ! q); m = num_images (h1 ! q) in
                (h1[a := (h1 ! a)\<lparr>num_classes := c, num_images := m,
                         layer_value := np_empty2 m c, gradients := np_empty2 m c\<rparr>],
                 Inr a)))"

definition CrossEntropy_init :: "heap \<Rightarrow> nat option \<Rightarrow> heap \<times> (py_error + nat)" where
  "CrossEntropy_init h p =
     (let a = length h; h1 = Layer_init h (blank CrossEntropy) p;
          h2 = h1[a := (h1 ! a)\<lparr>ideal_output := None\<rparr>]
      in case p of
           None \<Rightarrow> (h2, Inl AttributeError)
         | Some q \<Rightarrow>
             if kind (h2 ! q) = Input then (h2, Inl AttributeError)
             else
               (let c = num_classes (h2 ! q); m = num_images (h2 ! q) in
                (h2[a := (h2 ! a)\<lparr>num_classes := c, num_images := m, tmp_value := replicate m 0\<rparr>],
                 Inr a)))"

text \<open>The heaps that calls of the four constructors build, one object after the other. A
  predecessor is an object built before.\<close>

inductive constructed :: "heap \<Rightarrow> bool" where
  nothing: "constructed []"
| new_Input: "constructed h \<Longrightarrow> constructed (fst (Input_init h W_shape weights bias))"
| new_Hidden: "constructed h \<Longrightarrow> (case p of None \<Rightarrow> True | Some q \<Rightarrow> q < length h) \<Longrightarrow>
    constructed (fst (Hidden_init h p W_shape weights bias))"
| new_Softmax: "constructed h \<Longrightarrow> (case p of None \<Rightarrow> True | Some q \<Rightarrow> q < length h) \<Longrightarrow>
    constructed (fst (Softmax_init h p))"
| new_CrossEntropy: "constructed h \<Longrightarrow> (case p of None \<Rightarrow> True | Some q \<Rightarrow> q < length h) \<Longrightarrow>
    constructed (fst (CrossEntropy_init h p))"

definition g_in :: "graph \<Rightarrow> nat \<Rightarrow> nat set" where
  "g_in G n = (case map_of G n of None \<Rightarrow> {} | Some (i, out) \<Rightarrow> set i)"

definition g_out :: "graph \<Rightarrow> nat \<Rightarrow> nat set" where
  "g_out G n = (case map_of G n of None \<Rightarrow> {} | Some (i, out) \<Rightarrow> set out)"

definition good :: "graph \<Rightarrow> bool" where
  "good G = (\<forall>n i out. map_of G n = Some (i, out) \<longrightarrow> distinct i \<and> distinct out)"

lemma good_Some: "good G \<Longrightarrow> map_of G k = Some (i, out) \<Longrightarrow> distinct i \<and> distinct out"
  unfolding good_def by blast

lemma goodI:
  "(\<And>n i out. map_of G n = Some (i, out) \<Longrightarrow> distinct i \<and> distinct out) \<Longrightarrow> good G"
  unfolding good_def by blast

lemma g_in_Some: "map_of G k = Some (i, out) \<Longrightarrow> g_in G k = set i"
  by (simp add: g_in_def)

lemma g_out_Some: "map_of G k = Some (i, out) \<Longrightarrow> g_out G k = set out"
  by (simp add: g_out_def)

lemma map_of_snoc_fresh:
  "map_of G m = None \<Longrightarrow> map_of (G @ [(m, v)]) = (map_of G)(m \<mapsto> v)"
  by (rule ext) (auto simp: map_add_def split: option.splits)

lemma graph_fresh:
  assumes "map_of G m = None" "map_of G' = (map_of G)(m \<mapsto> ([], []))"
  shows "g_out G' = g_out G" "g_in G' = g_in G" "dom (map_of G') = insert m (dom (map_of G))"
    "good G \<Longrightarrow> good G'"
proof -
  show "g_out G' = g_out G"
    by (rule ext) (simp add: g_out_def assms)
  show "g_in G' = g_in G"
    by (rule ext) (simp add: g_in_def assms)
  show "dom (map_of G') = insert m (dom (map_of G))"
    by (simp add: assms)
  show "good G'" if g: "good G"
  proof (rule goodI)
    fix n a b
    assume m: "map_of G' n = Some (a, b)"
    show "distinct a \<and> distinct b"
    proof (cases "n = m")
      case True
      with m have "a = []" "b = []" by (simp_all add: assms(2))
      then show ?thesis by simp
    next
      case False
      with m have "map_of G n = Some (a, b)" by (simp add: assms(2))
      from good_Some [OF g this] show ?thesis .
    qed
  qed
qed

lemma graph_upd_in:
  assumes "map_of G k = Some (i, out)" "map_of G' = (map_of G)(k \<mapsto> (i', out))"
  shows "g_out G' = g_out G" "g_in G' = (g_in G)(k := set i')" "dom (map_of G') = dom (map_of G)"
    "good G \<Longrightarrow> distinct i' \<Longrightarrow> good G'"
proof -
  show "g_out G' = g_out G"
    by (rule ext) (simp add: g_out_def assms)
  show "g_in G' = (g_in G)(k := set i')"
    by (rule ext) (simp add: g_in_def assms)
  show "dom (map_of G') = dom (map_of G)"
    using assms(1) by (auto simp: assms(2))
  show "good G'" if g: "good G" and d: "distinct i'"
  proof (rule goodI)
    fix n a b
    assume m: "map_of G' n = Some (a, b)"
    show "distinct a \<and> distinct b"
    proof (cases "n = k")
      case True
      with m have "a = i'" "b = out" by (simp_all add: assms(2))
      then show ?thesis using d good_Some [OF g assms(1)] by simp
    next
      case False
      with m have "map_of G n = Some (a, b)" by (simp add: assms(2))
      from good_Some [OF g this] show ?thesis .
    qed
  qed
qed

lemma graph_upd_out:
  assumes "map_of G k = Some (i, out)" "map_of G' = (map_of G)(k \<mapsto> (i, out'))"
  shows "g_in G' = g_in G" "g_out G' = (g_out G)(k := set out')" "dom (map_of G') = dom (map_of G)"
    "good G \<Longrightarrow> distinct out' \<Longrightarrow> good G'"
proof -
  show "g_in G' = g_in G"
    by (rule ext) (simp add: g_in_def assms)
  show "g_out G' = (g_out G)(k := set out')"
    by (rule ext) (simp add: g_out_def assms)
  show "dom (map_of G') = dom (map_of G)"
    using assms(1) by (auto simp: assms(2))
  show "good G'" if g: "good G" and d: "distinct out'"
  proof (rule goodI)
    fix n a b
    assume m: "map_of G' n = Some (a, b)"
    show "distinct a \<and> distinct b"
    proof (cases "n = k")
      case True
      with m have "a = i" "b = out'" by (simp_all add: assms(2))
      then show ?thesis using d good_Some [OF g assms(1)] by simp
    next
      case False
      with m have "map_of G n = Some (a, b)" by (simp add: assms(2))
      from good_Some [OF g this] show ?thesis .
    qed
  qed
qed

lemma add_edges_spec:
  assumes "map_of G n \<noteq> None" "good G"
  shows "\<exists>G'. add_edges n ms (G, q) = Inr (G', q @ ms) \<and> good G' \<and>
           dom (map_of G') = dom (map_of G) \<union> set ms \<and>
           (\<forall>k. g_out G' k = g_out G k \<union> (if k = n then set ms else {})) \<and>
           (\<forall>k. g_in G' k = g_in G k \<union> (if k \<in> set ms then {n} else {}))"
  using assms
proof (induction ms arbitrary: G q)
  case Nil
  then show ?case by simp
next
  case (Cons m ms)
  define G1 where "G1 = (if map_of G m = None then G @ [(m, ([], []))] else G)"
  have f1: "g_out G1 = g_out G \<and> g_in G1 = g_in G \<and> dom (map_of G1) = insert m (dom (map_of G))
      \<and> good G1"
  proof (cases "map_of G m = None")
    case True
    then have "map_of G1 = (map_of G)(m \<mapsto> ([], []))"
      by (simp add: G1_def map_of_snoc_fresh del: map_of_append)
    from graph_fresh [OF True this] Cons.prems(2) show ?thesis by simp
  next
    case False
    then have "G1 = G" by (simp add: G1_def)
    with False Cons.prems(2) show ?thesis by auto
  qed
  have "n \<in> dom (map_of G1)" using f1 Cons.prems(1) by auto
  then obtain i_n o_n where n1: "map_of G1 n = Some (i_n, o_n)"
    by (cases "map_of G1 n") auto
  define G2 where "G2 = AList.update n (i_n, List.insert m o_n) G1"
  have M2: "map_of G2 = (map_of G1)(n \<mapsto> (i_n, List.insert m o_n))"
    by (simp add: G2_def update_conv')
  have d1: "distinct (List.insert m o_n)"
    using good_Some [OF _ n1] f1 by simp
  note u2 = graph_upd_out [OF n1 M2]
  have good2: "good G2" using u2(4) f1 d1 by simp
  have "m \<in> dom (map_of G2)" using f1 u2(3) by simp
  then obtain i_m o_m where m2: "map_of G2 m = Some (i_m, o_m)"
    by (cases "map_of G2 m") auto
  define G3 where "G3 = AList.update m (List.insert n i_m, o_m) G2"
  have M3: "map_of G3 = (map_of G2)(m \<mapsto> (List.insert n i_m, o_m))"
    by (simp add: G3_def update_conv')
  have d2: "distinct (List.insert n i_m)"
    using good_Some [OF good2 m2] by simp
  note u3 = graph_upd_in [OF m2 M3]
  have good3: "good G3" using u3(4) good2 d2 by simp
  have step: "add_edges n (m # ms) (G, q) = add_edges n ms (G3, q @ [m])"
    using n1 m2 by (simp add: G1_def [symmetric] G2_def [symmetric] G3_def [symmetric] Let_def)
  have n3: "map_of G3 n \<noteq> None"
    using u3(3) u2(3) n1 by (metis domI domIff)
  from Cons.IH [OF n3 good3, of "q @ [m]"] obtain G' where
    r: "add_edges n ms (G3, q @ [m]) = Inr (G', (q @ [m]) @ ms)" and g: "good G'"
    and d: "dom (map_of G') = dom (map_of G3) \<union> set ms"
    and o: "\<And>k. g_out G' k = g_out G3 k \<union> (if k = n then set ms else {})"
    and i: "\<And>k. g_in G' k = g_in G3 k \<union> (if k \<in> set ms then {n} else {})"
    by blast
  have d3: "dom (map_of G3) = insert m (dom (map_of G))"
    using u3(3) u2(3) f1 by simp
  have o3: "g_out G3 k = g_out G k \<union> (if k = n then {m} else {})" for k
    using u3(1) u2(2) f1 g_out_Some [OF n1] by auto
  have i3: "g_in G3 k = g_in G k \<union> (if k = m then {n} else {})" for k
    using u3(2) u2(1) f1 g_in_Some [OF m2] by auto
  have "add_edges n (m # ms) (G, q) = Inr (G', q @ m # ms)"
    using step r by simp
  moreover have "dom (map_of G') = dom (map_of G) \<union> set (m # ms)"
    using d d3 by auto
  moreover have "\<forall>k. g_out G' k = g_out G k \<union> (if k = n then set (m # ms) else {})"
    using o o3 by auto
  moreover have "\<forall>k. g_in G' k = g_in G k \<union> (if k \<in> set (m # ms) then {n} else {})"
    using i i3 by auto
  ultimately show ?case using g by blast
qed

definition edges :: "heap \<Rightarrow> (nat \<times> nat) set" where
  "edges h = {(n, m). n < length h \<and> m \<in> set (outbound_layers (h ! n))}"

definition reachable :: "heap \<Rightarrow> nat list \<Rightarrow> nat set" where
  "reachable h es = (edges h)\<^sup>* `` set es"

definition refs_ok :: "heap \<Rightarrow> bool" where
  "refs_ok h = (\<forall>n<length h. \<forall>m\<in>set (outbound_layers (h ! n)). m < length h)"

lemma refs_okD:
  "refs_ok h \<Longrightarrow> n < length h \<Longrightarrow> m \<in> set (outbound_layers (h ! n)) \<Longrightarrow> m < length h"
  unfolding refs_ok_def by blast

lemma edges_Image: "n < length h \<Longrightarrow> edges h `` {n} = set (outbound_layers (h ! n))"
  by (auto simp: edges_def)

lemma rtrancl_Image_insert:
  "r\<^sup>* `` insert n A = insert n (r\<^sup>* `` (r `` {n} \<union> A))"
proof -
  have "r\<^sup>* `` {n} = insert n (r\<^sup>* `` (r `` {n}))"
    by (auto elim: converse_rtranclE intro: converse_rtrancl_into_rtrancl)
  then show ?thesis by blast
qed

lemma reachable_Cons:
  "n < length h \<Longrightarrow>
   reachable h (n # rest) = insert n (reachable h (rest @ outbound_layers (h ! n)))"
  unfolding reachable_def using rtrancl_Image_insert [of "edges h" n "set rest"]
  by (simp add: edges_Image Un_commute)

lemma out_subset_reachable:
  "set q \<subseteq> reachable h q"
  unfolding reachable_def by auto

lemma build_graph_spec:
  assumes "wf ((edges h)\<inverse>)"
    and "refs_ok h"
    and "set q \<subseteq> {..<length h}" and "good G"
  shows "\<exists>G'. build_graph h q G = Some (Inr G') \<and> good G' \<and>
           dom (map_of G') = dom (map_of G) \<union> reachable h q \<and>
           (\<forall>k. g_out G' k =
              g_out G k \<union> (if k \<in> reachable h q then set (outbound_layers (h ! k)) else {})) \<and>
           (\<forall>k. g_in G' k = g_in G k \<union> {n \<in> reachable h q. k \<in> set (outbound_layers (h ! n))})"
proof -
  have "wf (mult1 ((edges h)\<inverse>))"
    by (rule wf_mult1 [OF assms(1)])
  then show ?thesis
    using assms(3,4)
  proof (induction "mset q" arbitrary: q G rule: wf_induct_rule)
    case less
    show ?case
    proof (cases q)
      case Nil
      then show ?thesis
        using less.prems by (simp add: build_graph.simps reachable_def)
    next
      case (Cons n rest)
      then have n: "n < length h" and rest: "set rest \<subseteq> {..<length h}"
        using less.prems(1) by auto
      let ?out = "outbound_layers (h ! n)"
      define G1 where "G1 = (if map_of G n = None then G @ [(n, ([], []))] else G)"
      have f1: "g_out G1 = g_out G \<and> g_in G1 = g_in G \<and>
          dom (map_of G1) = insert n (dom (map_of G)) \<and> good G1"
      proof (cases "map_of G n = None")
        case True
        then have "map_of G1 = (map_of G)(n \<mapsto> ([], []))"
          by (simp add: G1_def map_of_snoc_fresh del: map_of_append)
        from graph_fresh [OF True this] less.prems(2) show ?thesis by simp
      next
        case False
        then have "G1 = G" by (simp add: G1_def)
        with False less.prems(2) show ?thesis by auto
      qed
      have "map_of G1 n \<noteq> None" using f1 by blast
      from add_edges_spec [OF this, of ?out rest] f1 obtain G2 where
        a: "add_edges n ?out (G1, rest) = Inr (G2, rest @ ?out)" and g2: "good G2"
        and d2: "dom (map_of G2) = dom (map_of G1) \<union> set ?out"
        and o2: "\<And>k. g_out G2 k = g_out G1 k \<union> (if k = n then set ?out else {})"
        and i2: "\<And>k. g_in G2 k = g_in G1 k \<union> (if k \<in> set ?out then {n} else {})"
        by blast
      have step: "build_graph h q G = build_graph h (rest @ ?out) G2"
        using a by (subst build_graph.simps) (simp add: Cons G1_def [symmetric])
      have "\<forall>b. b \<in># mset ?out \<longrightarrow> (b, n) \<in> (edges h)\<inverse>"
        using n by (simp add: edges_def)
      then have dec: "(mset (rest @ ?out), mset q) \<in> mult1 ((edges h)\<inverse>)"
        unfolding mult1_def Cons by (simp, intro exI [of _ n] exI [of _ "mset rest"] exI [of _ "mset ?out"]) simp
      have sub: "set (rest @ ?out) \<subseteq> {..<length h}"
        using rest refs_okD [OF assms(2) n] by auto
      from less.hyps [OF dec sub g2] obtain G' where
        r: "build_graph h (rest @ ?out) G2 = Some (Inr G')" and g: "good G'"
        and d: "dom (map_of G') = dom (map_of G2) \<union> reachable h (rest @ ?out)"
        and o: "\<And>k. g_out G' k = g_out G2 k \<union>
                  (if k \<in> reachable h (rest @ ?out) then set (outbound_layers (h ! k)) else {})"
        and i: "\<And>k. g_in G' k = g_in G2 k \<union>
                  {p \<in> reachable h (rest @ ?out). k \<in> set (outbound_layers (h ! p))}"
        by blast
      have R: "reachable h q = insert n (reachable h (rest @ ?out))"
        unfolding Cons by (rule reachable_Cons [OF n])
      have osub: "set ?out \<subseteq> reachable h (rest @ ?out)"
        using out_subset_reachable [of "rest @ ?out" h] by simp
      have "build_graph h q G = Some (Inr G')"
        using step r by simp
      moreover have "dom (map_of G') = dom (map_of G) \<union> reachable h q"
        using d d2 f1 osub unfolding R by auto
      moreover have "\<forall>k. g_out G' k =
              g_out G k \<union> (if k \<in> reachable h q then set (outbound_layers (h ! k)) else {})"
        using o o2 f1 unfolding R by auto
      moreover have "\<forall>k. g_in G' k =
              g_in G k \<union> {p \<in> reachable h q. k \<in> set (outbound_layers (h ! p))}"
        using i i2 f1 unfolding R by auto
      ultimately show ?thesis using g by blast
    qed
  qed
qed

lemma remove_edges_spec:
  assumes "good G" "distinct ms" "n \<notin> set ms" "set ms \<subseteq> g_out G n"
    and "\<And>m. m \<in> set ms \<Longrightarrow> n \<in> g_in G m" and "distinct S"
  shows "\<exists>G' S'. remove_edges n ms (G, S) = Inr (G', S') \<and> good G' \<and>
           dom (map_of G') = dom (map_of G) \<and>
           (\<forall>k. g_out G' k = g_out G k - (if k = n then set ms else {})) \<and>
           (\<forall>k. g_in G' k = g_in G k - (if k \<in> set ms then {n} else {})) \<and>
           set S' = set S \<union> {m \<in> set ms. g_in G m = {n}} \<and> distinct S'"
  using assms
proof (induction ms arbitrary: G S)
  case Nil
  then show ?case by simp
next
  case (Cons m ms)
  have nm: "n \<noteq> m" and nms: "n \<notin> set ms" and mms: "m \<notin> set ms" and dms: "distinct ms"
    using Cons.prems(2,3) by auto
  have "m \<in> g_out G n" using Cons.prems(4) by simp
  then obtain i_n o_n where n0: "map_of G n = Some (i_n, o_n)" and mo: "m \<in> set o_n"
    by (auto simp: g_out_def split: option.splits)
  have do_n: "distinct o_n" using good_Some [OF Cons.prems(1) n0] by simp
  define G1 where "G1 = AList.update n (i_n, remove1 m o_n) G"
  have M1: "map_of G1 = (map_of G)(n \<mapsto> (i_n, remove1 m o_n))"
    by (simp add: G1_def update_conv')
  note u1 = graph_upd_out [OF n0 M1]
  have good1: "good G1" using u1(4) Cons.prems(1) do_n by simp
  have "n \<in> g_in G1 m" using Cons.prems(5) [of m] u1(1) by simp
  then obtain i_m o_m where m1: "map_of G1 m = Some (i_m, o_m)" and ni: "n \<in> set i_m"
    by (auto simp: g_in_def split: option.splits)
  have di_m: "distinct i_m" using good_Some [OF good1 m1] by simp
  define G2 where "G2 = AList.update m (remove1 n i_m, o_m) G1"
  have M2: "map_of G2 = (map_of G1)(m \<mapsto> (remove1 n i_m, o_m))"
    by (simp add: G2_def update_conv')
  note u2 = graph_upd_in [OF m1 M2]
  have good2: "good G2" using u2(4) good1 di_m by simp
  define S2 where "S2 = (if remove1 n i_m = [] then List.insert m S else S)"
  have step: "remove_edges n (m # ms) (G, S) = remove_edges n ms (G2, S2)"
    using n0 mo m1 ni
    by (simp add: G1_def [symmetric] G2_def [symmetric] S2_def [symmetric] Let_def)
  have o2: "g_out G2 k = g_out G k - (if k = n then {m} else {})" for k
    using u2(1) u1(2) g_out_Some [OF n0] do_n by auto
  have gim: "g_in G m = set i_m"
    using u1(1) g_in_Some [OF m1] by simp
  have i2: "g_in G2 k = g_in G k - (if k = m then {n} else {})" for k
    using u2(2) u1(1) gim di_m by auto
  have p4: "set ms \<subseteq> g_out G2 n"
    using Cons.prems(4) mms by (auto simp: o2)
  have p5: "n \<in> g_in G2 m'" if "m' \<in> set ms" for m'
    using Cons.prems(5) [of m'] that mms by (auto simp: i2)
  have dS2: "distinct S2" using Cons.prems(6) by (simp add: S2_def)
  from Cons.IH [OF good2 dms nms p4 p5 dS2] obtain G' S' where
    r: "remove_edges n ms (G2, S2) = Inr (G', S')" and g: "good G'"
    and d: "dom (map_of G') = dom (map_of G2)"
    and o: "\<And>k. g_out G' k = g_out G2 k - (if k = n then set ms else {})"
    and i: "\<And>k. g_in G' k = g_in G2 k - (if k \<in> set ms then {n} else {})"
    and s: "set S' = set S2 \<union> {m' \<in> set ms. g_in G2 m' = {n}}" and ds: "distinct S'"
    by blast
  have e: "remove1 n i_m = [] \<longleftrightarrow> g_in G m = {n}"
  proof -
    have "remove1 n i_m = [] \<longleftrightarrow> set (remove1 n i_m) = {}" by simp
    also have "\<dots> \<longleftrightarrow> set i_m - {n} = {}" using di_m by simp
    also have "\<dots> \<longleftrightarrow> set i_m = {n}" using ni by auto
    finally show ?thesis by (simp add: gim)
  qed
  have sS2: "set S2 = set S \<union> (if g_in G m = {n} then {m} else {})"
    unfolding S2_def e by simp
  have eq: "{m' \<in> set ms. g_in G2 m' = {n}} = {m' \<in> set ms. g_in G m' = {n}}"
    using mms by (auto simp: i2)
  have "remove_edges n (m # ms) (G, S) = Inr (G', S')"
    using step r by simp
  moreover have "dom (map_of G') = dom (map_of G)"
    using d u2(3) u1(3) by simp
  moreover have "\<forall>k. g_out G' k = g_out G k - (if k = n then set (m # ms) else {})"
    using o o2 by auto
  moreover have "\<forall>k. g_in G' k = g_in G k - (if k \<in> set (m # ms) then {n} else {})"
    using i i2 by auto
  moreover have "set S' = set S \<union> {m' \<in> set (m # ms). g_in G m' = {n}}"
    unfolding s eq sS2 by auto
  ultimately show ?case using g ds by blast
qed

definition wiring :: "layer \<Rightarrow> kind \<times> nat option \<times> nat list" where
  "wiring l = (kind l, input_layer l, outbound_layers l)"

fun before :: "nat list \<Rightarrow> nat \<Rightarrow> nat \<Rightarrow> bool" where
  "before [] a b = False"
| "before (x # xs) a b = (if x = a then b \<in> set xs else before xs a b)"

definition preds :: "heap \<Rightarrow> nat set \<Rightarrow> nat \<Rightarrow> nat set" where
  "preds h R m = {p \<in> R. m \<in> set (outbound_layers (h ! p))}"

definition kahn_inv :: "heap \<Rightarrow> nat set \<Rightarrow> heap \<times> nat list \<times> nat list \<times> graph \<Rightarrow> bool" where
  "kahn_inv h0 R = (\<lambda>(h, L, S, G).
     map wiring h = map wiring h0 \<and> good G \<and> distinct L \<and> distinct S \<and> set L \<subseteq> R \<and>
     (\<forall>k\<in>R. g_out G k = (if k \<in> set L then {} else set (outbound_layers (h0 ! k)))) \<and>
     (\<forall>k\<in>R. g_in G k = preds h0 R k - set L) \<and>
     set S = {m \<in> R - set L. preds h0 R m \<subseteq> set L} \<and>
     (\<forall>m\<in>set L. \<forall>p\<in>preds h0 R m. before L p m))"

lemma before_append: "before L a b \<Longrightarrow> before (L @ xs) a b"
  by (induction L) auto

lemma before_snoc: "a \<in> set L \<Longrightarrow> before (L @ [n]) a n"
proof (induction L)
  case Nil
  then show ?case by simp
next
  case (Cons x L)
  show ?case
  proof (cases "x = a")
    case True
    then show ?thesis by simp
  next
    case False
    with Cons show ?thesis by simp
  qed
qed

lemma map_wiring_update:
  "wiring l = wiring (h ! n) \<Longrightarrow> map wiring (h[n := l]) = map wiring h"
proof (cases "n < length h")
  case True
  assume "wiring l = wiring (h ! n)"
  with True show ?thesis by (simp add: map_update list_update_same_conv)
next
  case False
  then have "length h \<le> n" by simp
  then have "h[n := l] = h" by (rule list_update_beyond)
  then show ?thesis by simp
qed

lemma inject_wiring: "inject feed ideal n h = Inr h1 \<Longrightarrow> map wiring h1 = map wiring h"
  by (auto simp: inject_def map_wiring_update wiring_def split: if_splits option.splits)

lemma inject_ok:
  "(kind (h ! n) = Input \<Longrightarrow> map_of feed n \<noteq> None) \<Longrightarrow> \<exists>h1. inject feed ideal n h = Inr h1"
  by (auto simp: inject_def split: option.splits)

lemma same_wiring_nth:
  assumes "map wiring h = map wiring h0" "k < length h0"
  shows "outbound_layers (h ! k) = outbound_layers (h0 ! k)" "kind (h ! k) = kind (h0 ! k)"
    "input_layer (h ! k) = input_layer (h0 ! k)"
proof -
  have l: "length h = length h0" using assms(1) by (metis length_map)
  have "map wiring h ! k = map wiring h0 ! k" using assms(1) by simp
  then have "wiring (h ! k) = wiring (h0 ! k)" using assms(2) l by simp
  then show "outbound_layers (h ! k) = outbound_layers (h0 ! k)" "kind (h ! k) = kind (h0 ! k)"
    "input_layer (h ! k) = input_layer (h0 ! k)"
    by (simp_all add: wiring_def)
qed

lemma pop_index:
  assumes "distinct S" "k < length S"
  shows "set (take k S @ drop (Suc k) S) = set S - {S ! k}" "distinct (take k S @ drop (Suc k) S)"
proof -
  have S: "S = take k S @ S ! k # drop (Suc k) S"
    using assms(2) by (rule id_take_nth_drop)
  then have d: "distinct (take k S @ S ! k # drop (Suc k) S)"
    using assms(1) by simp
  then show "distinct (take k S @ drop (Suc k) S)" by simp
  have "set S = insert (S ! k) (set (take k S @ drop (Suc k) S))"
    by (subst S) simp
  moreover have "S ! k \<notin> set (take k S @ drop (Suc k) S)"
    using d by simp
  ultimately show "set (take k S @ drop (Suc k) S) = set S - {S ! k}" by blast
qed

lemma kahn_invD:
  assumes "kahn_inv h0 R (h, L, S, G)"
  shows "map wiring h = map wiring h0" "good G" "distinct L" "distinct S" "set L \<subseteq> R"
    "\<And>k. k \<in> R \<Longrightarrow> g_out G k = (if k \<in> set L then {} else set (outbound_layers (h0 ! k)))"
    "\<And>k. k \<in> R \<Longrightarrow> g_in G k = preds h0 R k - set L"
    "set S = {m \<in> R - set L. preds h0 R m \<subseteq> set L}"
    "\<And>m p. m \<in> set L \<Longrightarrow> p \<in> preds h0 R m \<Longrightarrow> before L p m"
  using assms unfolding kahn_inv_def by blast+

lemma kahn_invI:
  assumes "map wiring h = map wiring h0" "good G" "distinct L" "distinct S" "set L \<subseteq> R"
    "\<And>k. k \<in> R \<Longrightarrow> g_out G k = (if k \<in> set L then {} else set (outbound_layers (h0 ! k)))"
    "\<And>k. k \<in> R \<Longrightarrow> g_in G k = preds h0 R k - set L"
    "set S = {m \<in> R - set L. preds h0 R m \<subseteq> set L}"
    "\<And>m p. m \<in> set L \<Longrightarrow> p \<in> preds h0 R m \<Longrightarrow> before L p m"
  shows "kahn_inv h0 R (h, L, S, G)"
  using assms unfolding kahn_inv_def by blast

lemma kahn_correct:
  assumes R: "R \<subseteq> {..<length h0}"
    and closed: "\<And>n m. n \<in> R \<Longrightarrow> m \<in> set (outbound_layers (h0 ! n)) \<Longrightarrow> m \<in> R"
    and dist: "\<And>n. n \<in> R \<Longrightarrow> distinct (outbound_layers (h0 ! n))"
    and wfE: "wf (edges h0)"
    and inp: "\<And>n. n \<in> R \<Longrightarrow> kind (h0 ! n) = Input \<Longrightarrow> map_of feed n \<noteq> None"
    and inv: "kahn_inv h0 R (h, L, S, G)"
  shows "\<exists>h' L'. kahn pick feed ideal (h, L, S, G) = Inr (h', L') \<and>
           map wiring h' = map wiring h0 \<and> distinct L' \<and> set L' = R \<and>
           (\<forall>m\<in>set L'. \<forall>p\<in>preds h0 R m. before L' p m)"
  using inv
proof (induction "card (R - set L)" arbitrary: h L S G rule: less_induct)
  case less
  note i = kahn_invD [OF less.prems]
  have finR: "finite R" using R finite_subset by blast
  show ?case
  proof (cases "S = []")
    case True
    have "R - set L = {}"
    proof (rule ccontr)
      assume "R - set L \<noteq> {}"
      then obtain x where "x \<in> R - set L" by blast
      from wfE_min [OF wfE this] obtain m where m: "m \<in> R - set L"
        and mn: "\<And>p. (p, m) \<in> edges h0 \<Longrightarrow> p \<notin> R - set L" by blast
      have "preds h0 R m \<subseteq> set L"
      proof
        fix p assume p: "p \<in> preds h0 R m"
        then have "p \<in> R" "m \<in> set (outbound_layers (h0 ! p))" by (simp_all add: preds_def)
        moreover then have "p < length h0" using R by blast
        ultimately have "(p, m) \<in> edges h0" by (simp add: edges_def)
        from mn [OF this] \<open>p \<in> R\<close> show "p \<in> set L" by blast
      qed
      with m have "m \<in> set S" unfolding i(8) by blast
      with True show False by simp
    qed
    with i(5) have "set L = R" by blast
    moreover have "kahn pick feed ideal (h, L, S, G) = Inr (h, L)"
      using True by simp
    ultimately show ?thesis using i(1,3,9) by blast
  next
    case False
    define k where "k = pick L S mod length S"
    define n where "n = S ! k"
    define S1 where "S1 = take k S @ drop (Suc k) S"
    have k: "k < length S" using False by (simp add: k_def)
    have nS: "n \<in> set S" using k by (simp add: n_def)
    then have nR: "n \<in> R" and nL: "n \<notin> set L" and pn: "preds h0 R n \<subseteq> set L"
      unfolding i(8) by blast+
    have n_lt: "n < length h0" using nR R by blast
    note p = pop_index [OF i(4) k, folded S1_def n_def]
    have "kind (h ! n) = Input \<Longrightarrow> map_of feed n \<noteq> None"
      using inp [OF nR] same_wiring_nth(2) [OF i(1) n_lt] by simp
    from inject_ok [OF this] obtain h1 where h1: "inject feed ideal n h = Inr h1" by blast
    have w1: "map wiring h1 = map wiring h0"
      using inject_wiring [OF h1] i(1) by simp
    let ?out = "outbound_layers (h0 ! n)"
    have out1: "outbound_layers (h1 ! n) = ?out"
      by (rule same_wiring_nth(1) [OF w1 n_lt])
    have noself: "n \<notin> set ?out"
    proof
      assume "n \<in> set ?out"
      then have "(n, n) \<in> edges h0" using n_lt by (simp add: edges_def)
      with wfE show False by (simp add: wf_not_refl)
    qed
    have outR: "m \<in> R" if "m \<in> set ?out" for m
      using closed [OF nR that] .
    have a4: "set ?out \<subseteq> g_out G n"
      using i(6) [OF nR] nL by simp
    have a5: "n \<in> g_in G m" if "m \<in> set ?out" for m
      using i(7) [OF outR [OF that]] that nR nL by (simp add: preds_def)
    from remove_edges_spec [OF i(2) dist [OF nR] noself a4 a5 p(2)] obtain G' S' where
      r: "remove_edges n ?out (G, S1) = Inr (G', S')" and g': "good G'"
      and o': "\<And>k. g_out G' k = g_out G k - (if k = n then set ?out else {})"
      and i': "\<And>k. g_in G' k = g_in G k - (if k \<in> set ?out then {n} else {})"
      and s': "set S' = set S1 \<union> {m \<in> set ?out. g_in G m = {n}}" and ds': "distinct S'"
      by blast
    have step: "kahn pick feed ideal (h, L, S, G) = kahn pick feed ideal (h1, L @ [n], S', G')"
      using False h1 r
      by (subst kahn.simps) (simp add: k_def [symmetric] n_def [symmetric] S1_def [symmetric] out1 Let_def)
    have closedL: "preds h0 R m \<subseteq> set L" if "m \<in> set L" for m
    proof
      fix q assume "q \<in> preds h0 R m"
      from i(9) [OF that this] show "q \<in> set L"
        by (induction L) (auto split: if_splits)
    qed
    have inv': "kahn_inv h0 R (h1, L @ [n], S', G')"
    proof (rule kahn_invI)
      show "map wiring h1 = map wiring h0" by (rule w1)
      show "good G'" by (rule g')
      show "distinct (L @ [n])" using i(3) nL by simp
      show "distinct S'" by (rule ds')
      show "set (L @ [n]) \<subseteq> R" using i(5) nR by simp
      show "g_out G' k = (if k \<in> set (L @ [n]) then {} else set (outbound_layers (h0 ! k)))"
        if "k \<in> R" for k
        using o' [of k] i(6) [OF that] by auto
      show "g_in G' k = preds h0 R k - set (L @ [n])" if "k \<in> R" for k
      proof (cases "k \<in> set ?out")
        case True
        then show ?thesis using i' [of k] i(7) [OF that] by auto
      next
        case False
        then have "n \<notin> preds h0 R k" by (simp add: preds_def)
        with False show ?thesis using i' [of k] i(7) [OF that] by auto
      qed
      show "set S' = {m \<in> R - set (L @ [n]). preds h0 R m \<subseteq> set (L @ [n])}"
      proof (intro set_eqI iffI)
        fix m assume "m \<in> set S'"
        then consider "m \<in> set S" "m \<noteq> n" | "m \<in> set ?out" "g_in G m = {n}"
          unfolding s' p(1) by blast
        then show "m \<in> {m \<in> R - set (L @ [n]). preds h0 R m \<subseteq> set (L @ [n])}"
        proof cases
          case 1
          then show ?thesis unfolding i(8) by auto
        next
          case 2
          have mR: "m \<in> R" by (rule outR [OF 2(1)])
          have e: "preds h0 R m - set L = {n}" using i(7) [OF mR] 2(2) by simp
          have "m \<notin> set L"
          proof
            assume "m \<in> set L"
            from closedL [OF this] e show False by blast
          qed
          moreover have "m \<noteq> n" using 2(1) noself by blast
          moreover have "preds h0 R m \<subseteq> set (L @ [n])" using e by auto
          ultimately show ?thesis using mR by simp
        qed
      next
        fix m assume "m \<in> {m \<in> R - set (L @ [n]). preds h0 R m \<subseteq> set (L @ [n])}"
        then have mR: "m \<in> R" and mL: "m \<notin> set L" and mn: "m \<noteq> n"
          and pm: "preds h0 R m \<subseteq> insert n (set L)" by auto
        show "m \<in> set S'"
        proof (cases "n \<in> preds h0 R m")
          case True
          then have "m \<in> set ?out" by (simp add: preds_def)
          moreover have "g_in G m = {n}"
            using i(7) [OF mR] pm True nL by auto
          ultimately show ?thesis unfolding s' by blast
        next
          case False
          with pm have "preds h0 R m \<subseteq> set L" by blast
          with mR mL have "m \<in> set S" unfolding i(8) by blast
          with mn show ?thesis unfolding s' p(1) by blast
        qed
      qed
      show "before (L @ [n]) q m" if "m \<in> set (L @ [n])" "q \<in> preds h0 R m" for m q
      proof (cases "m \<in> set L")
        case True
        from before_append [OF i(9) [OF True that(2)]] show ?thesis .
      next
        case False
        with that(1) have "m = n" by simp
        with that(2) pn have "q \<in> set L" by blast
        from before_snoc [OF this] \<open>m = n\<close> show ?thesis by simp
      qed
    qed
    have "R - set (L @ [n]) \<subset> R - set L"
      using nR nL by auto
    then have "card (R - set (L @ [n])) < card (R - set L)"
      using finR by (simp add: psubset_card_mono)
    from less.hyps [OF this inv'] step show ?thesis by simp
  qed
qed

definition wired :: "heap \<Rightarrow> bool" where
  "wired h = list_all (\<lambda>n.
      distinct (outbound_layers (h ! n)) \<and>
      list_all (\<lambda>m. m < length h \<and> input_layer (h ! m) = Some n) (outbound_layers (h ! n)) \<and>
      (case input_layer (h ! n) of
         None \<Rightarrow> True
       | Some p \<Rightarrow> kind (h ! n) \<noteq> Input \<and> p < length h \<and> n \<in> set (outbound_layers (h ! p))))
    [0..<length h]"

lemma wiredD:
  assumes "wired h" "n < length h"
  shows "distinct (outbound_layers (h ! n))"
    "\<And>m. m \<in> set (outbound_layers (h ! n)) \<Longrightarrow> m < length h \<and> input_layer (h ! m) = Some n"
    "\<And>p. input_layer (h ! n) = Some p \<Longrightarrow>
       kind (h ! n) \<noteq> Input \<and> p < length h \<and> n \<in> set (outbound_layers (h ! p))"
proof -
  have a: "distinct (outbound_layers (h ! n)) \<and>
      list_all (\<lambda>m. m < length h \<and> input_layer (h ! m) = Some n) (outbound_layers (h ! n)) \<and>
      (case input_layer (h ! n) of
         None \<Rightarrow> True
       | Some p \<Rightarrow> kind (h ! n) \<noteq> Input \<and> p < length h \<and> n \<in> set (outbound_layers (h ! p)))"
    using assms unfolding wired_def list_all_iff by simp
  show "distinct (outbound_layers (h ! n))" using a by blast
  show "m < length h \<and> input_layer (h ! m) = Some n" if "m \<in> set (outbound_layers (h ! n))" for m
    using a that unfolding list_all_iff by blast
  show "kind (h ! n) \<noteq> Input \<and> p < length h \<and> n \<in> set (outbound_layers (h ! p))"
    if "input_layer (h ! n) = Some p" for p
    using a that by simp
qed

lemma finite_edges:
  assumes "refs_ok h"
  shows "finite (edges h)"
proof (rule finite_subset)
  show "edges h \<subseteq> {..<length h} \<times> {..<length h}"
    using refs_okD [OF assms] by (auto simp: edges_def)
  show "finite ({..<length h} \<times> {..<length h})" by simp
qed

lemma reachable_in_range:
  assumes "refs_ok h"
    and "set es \<subseteq> {..<length h}"
  shows "reachable h es \<subseteq> {..<length h}"
proof
  fix x assume "x \<in> reachable h es"
  then obtain e where e: "e \<in> set es" and r: "(e, x) \<in> (edges h)\<^sup>*"
    unfolding reachable_def by blast
  from r e show "x \<in> {..<length h}"
  proof (induction rule: rtrancl_induct)
    case base
    then show ?case using assms(2) by blast
  next
    case (step y z)
    then have "y < length h" "z \<in> set (outbound_layers (h ! y))" by (simp_all add: edges_def)
    from refs_okD [OF assms(1) this] show ?case by simp
  qed
qed

lemma reachable_step:
  "n \<in> reachable h es \<Longrightarrow> n < length h \<Longrightarrow> m \<in> set (outbound_layers (h ! n)) \<Longrightarrow>
   m \<in> reachable h es"
  unfolding reachable_def edges_def by (auto intro: rtrancl_into_rtrancl)

lemma reachable_cases:
  assumes "m \<in> reachable h es"
  shows "m \<in> set es \<or> (\<exists>p \<in> reachable h es. p < length h \<and> m \<in> set (outbound_layers (h ! p)))"
proof -
  from assms obtain e where e: "e \<in> set es" and r: "(e, m) \<in> (edges h)\<^sup>*"
    unfolding reachable_def by blast
  from r show ?thesis
  proof (cases rule: rtranclE)
    case base
    with e show ?thesis by simp
  next
    case (step y)
    then have "y \<in> reachable h es" using e unfolding reachable_def by blast
    moreover have "y < length h" "m \<in> set (outbound_layers (h ! y))"
      using step(2) by (simp_all add: edges_def)
    ultimately show ?thesis by blast
  qed
qed

lemma topological_sort_general:
  assumes refs: "refs_ok h"
    and entries: "set (map fst feed) \<subseteq> {..<length h}"
    and acyc: "acyclic (edges h)"
    and dist: "\<And>n. n \<in> reachable h (map fst feed) \<Longrightarrow> distinct (outbound_layers (h ! n))"
    and nopred: "\<And>e n. e \<in> set (map fst feed) \<Longrightarrow> n \<in> reachable h (map fst feed) \<Longrightarrow>
        e \<notin> set (outbound_layers (h ! n))"
    and inp: "\<And>n. n \<in> reachable h (map fst feed) \<Longrightarrow> kind (h ! n) = Input \<Longrightarrow>
        map_of feed n \<noteq> None"
  shows "\<exists>h' L. topological_sort pick h feed ideal = Some (Inr (h', L)) \<and>
           map wiring h' = map wiring h \<and> distinct L \<and> set L = reachable h (map fst feed) \<and>
           (\<forall>m\<in>set L. \<forall>p\<in>preds h (reachable h (map fst feed)) m. before L p m)"
proof -
  let ?es = "map fst feed"
  let ?R = "reachable h ?es"
  have fin: "finite (edges h)" by (rule finite_edges [OF refs])
  have wf1: "wf (edges h)" by (rule finite_acyclic_wf [OF fin acyc])
  have wf2: "wf ((edges h)\<inverse>)" by (rule finite_acyclic_wf_converse [OF fin acyc])
  have good0: "good []" by (simp add: good_def)
  from build_graph_spec [OF wf2 refs entries good0] obtain G where
    b: "build_graph h ?es [] = Some (Inr G)" and g: "good G"
    and o: "\<And>k. g_out G k = g_out [] k \<union> (if k \<in> ?R then set (outbound_layers (h ! k)) else {})"
    and i: "\<And>k. g_in G k = g_in [] k \<union> {n \<in> ?R. k \<in> set (outbound_layers (h ! n))}"
    by blast
  have R: "?R \<subseteq> {..<length h}"
    by (rule reachable_in_range [OF refs entries])
  have closed: "m \<in> ?R" if "n \<in> ?R" "m \<in> set (outbound_layers (h ! n))" for n m
    using reachable_step [OF that(1) _ that(2)] R that(1) by blast
  have S0: "set (remdups ?es) = {m \<in> ?R - set []. preds h ?R m \<subseteq> set []}"
  proof (intro set_eqI iffI)
    fix m assume "m \<in> set (remdups ?es)"
    then have m: "m \<in> set ?es" by simp
    then have "m \<in> ?R" using out_subset_reachable by blast
    moreover have "preds h ?R m = {}"
      using nopred [OF m] by (auto simp: preds_def)
    ultimately show "m \<in> {m \<in> ?R - set []. preds h ?R m \<subseteq> set []}" by simp
  next
    fix m assume "m \<in> {m \<in> ?R - set []. preds h ?R m \<subseteq> set []}"
    then have mR: "m \<in> ?R" and e: "preds h ?R m = {}" by auto
    from reachable_cases [OF mR] e show "m \<in> set (remdups ?es)"
      by (auto simp: preds_def)
  qed
  have inv: "kahn_inv h ?R (h, [], remdups ?es, G)"
  proof (rule kahn_invI)
    show "g_out G k = (if k \<in> set [] then {} else set (outbound_layers (h ! k)))" if "k \<in> ?R" for k
      using o [of k] that by (simp add: g_out_def)
    show "g_in G k = preds h ?R k - set []" if "k \<in> ?R" for k
      using i [of k] by (simp add: g_in_def preds_def)
    show "set (remdups ?es) = {m \<in> ?R - set []. preds h ?R m \<subseteq> set []}" by (rule S0)
  qed (simp_all add: g)
  have "\<exists>h' L'. kahn pick feed ideal (h, [], remdups ?es, G) = Inr (h', L') \<and>
           map wiring h' = map wiring h \<and> distinct L' \<and> set L' = ?R \<and>
           (\<forall>m\<in>set L'. \<forall>p\<in>preds h ?R m. before L' p m)"
  proof (rule kahn_correct [OF R _ _ wf1 _ inv])
    show "m \<in> ?R" if "n \<in> ?R" "m \<in> set (outbound_layers (h ! n))" for n m
      using that by (rule closed)
    show "distinct (outbound_layers (h ! n))" if "n \<in> ?R" for n
      using that by (rule dist)
    show "map_of feed n \<noteq> None" if "n \<in> ?R" "kind (h ! n) = Input" for n
      using that by (rule inp)
  qed
  then obtain h' L' where k: "kahn pick feed ideal (h, [], remdups ?es, G) = Inr (h', L')"
    and r: "map wiring h' = map wiring h" "distinct L'" "set L' = ?R"
      "\<forall>m\<in>set L'. \<forall>p\<in>preds h ?R m. before L' p m"
    by blast
  have "topological_sort pick h feed ideal = Some (Inr (h', L'))"
    unfolding topological_sort_def Let_def b using k by (simp del: kahn.simps)
  with r show ?thesis by blast
qed

lemma wired_refs_ok: "wired h \<Longrightarrow> refs_ok h"
  unfolding refs_ok_def using wiredD(2) by blast

lemma acyclic_edges_increasing:
  assumes "\<And>n m. n < length h \<Longrightarrow> m \<in> set (outbound_layers (h ! n)) \<Longrightarrow> n < m"
  shows "acyclic (edges h)"
proof (rule acyclicI_order [where f = "\<lambda>x. - int x"])
  fix a b assume "(a, b) \<in> edges h"
  then have "a < b" using assms by (auto simp: edges_def)
  then show "- int b < - int a" by simp
qed

definition after_predecessor :: "heap \<Rightarrow> nat list \<Rightarrow> bool" where
  "after_predecessor h L =
     list_all (\<lambda>m. case input_layer (h ! m) of None \<Rightarrow> True | Some p \<Rightarrow> before L p m) L"

definition entry_nodes :: "heap \<Rightarrow> feed_dict \<Rightarrow> bool" where
  "entry_nodes h feed = list_all (\<lambda>e. e < length h \<and> kind (h ! e) = Input) (map fst feed)"

text \<open>
  Claim C1. Let the heap be wired as the constructors wire it (every successor list without
  repetition, a node in the successor list of exactly its predecessor, no predecessor for an
  \<open>Input\<close> node), let its graph be acyclic and let the keys of the feed dictionary be
  \<open>Input\<close> nodes. Then, however \<open>S.pop()\<close> chooses, \<open>topological_sort\<close> returns
  a list in which every node reachable from the keys appears exactly once and every node
  appears after its predecessor.
\<close>

theorem topological_sort_order:
  assumes w: "wired h" and acyc: "acyclic (edges h)" and en: "entry_nodes h feed"
  shows "\<exists>h' L. topological_sort pick h feed ideal = Some (Inr (h', L)) \<and> distinct L \<and>
           set L = reachable h (map fst feed) \<and> after_predecessor h L"
proof -
  let ?es = "map fst feed"
  let ?R = "reachable h ?es"
  have refs: "refs_ok h" by (rule wired_refs_ok [OF w])
  have e1: "e < length h" and e2: "kind (h ! e) = Input" if "e \<in> set ?es" for e
    using en that unfolding entry_nodes_def list_all_iff by blast+
  have entries: "set ?es \<subseteq> {..<length h}" using e1 by blast
  have R: "?R \<subseteq> {..<length h}" by (rule reachable_in_range [OF refs entries])
  have nopred_entry: "input_layer (h ! e) = None" if "e \<in> set ?es" for e
  proof (cases "input_layer (h ! e)")
    case None then show ?thesis .
  next
    case (Some p)
    from wiredD(3) [OF w e1 [OF that] Some] e2 [OF that] show ?thesis by simp
  qed
  have pred_of: "input_layer (h ! m) = Some n" if "n \<in> ?R" "m \<in> set (outbound_layers (h ! n))" for n m
  proof -
    have "n < length h" using that(1) R by blast
    from wiredD(2) [OF w this that(2)] show ?thesis by simp
  qed
  have "\<exists>h' L. topological_sort pick h feed ideal = Some (Inr (h', L)) \<and>
           map wiring h' = map wiring h \<and> distinct L \<and> set L = ?R \<and>
           (\<forall>m\<in>set L. \<forall>p\<in>preds h ?R m. before L p m)"
  proof (rule topological_sort_general [OF refs entries acyc])
    show "distinct (outbound_layers (h ! n))" if "n \<in> ?R" for n
    proof -
      have "n < length h" using that R by blast
      from wiredD(1) [OF w this] show ?thesis .
    qed
    show "e \<notin> set (outbound_layers (h ! n))" if "e \<in> set ?es" "n \<in> ?R" for e n
    proof
      assume "e \<in> set (outbound_layers (h ! n))"
      from pred_of [OF that(2) this] nopred_entry [OF that(1)] show False by simp
    qed
    show "map_of feed n \<noteq> None" if "n \<in> ?R" "kind (h ! n) = Input" for n
    proof -
      have nl: "n < length h" using that(1) R by blast
      have "input_layer (h ! n) = None"
      proof (cases "input_layer (h ! n)")
        case None then show ?thesis .
      next
        case (Some p)
        from wiredD(3) [OF w nl Some] that(2) show ?thesis by simp
      qed
      with reachable_cases [OF that(1)] pred_of have "n \<in> set ?es" by fastforce
      then show ?thesis by (simp add: map_of_eq_None_iff)
    qed
  qed
  then obtain h' L where t: "topological_sort pick h feed ideal = Some (Inr (h', L))"
    and d: "distinct L" and s: "set L = ?R"
    and o: "\<And>m p. m \<in> set L \<Longrightarrow> p \<in> preds h ?R m \<Longrightarrow> before L p m"
    by blast
  have "after_predecessor h L"
    unfolding after_predecessor_def list_all_iff
  proof
    fix m assume m: "m \<in> set L"
    then have mR: "m \<in> ?R" using s by simp
    show "case input_layer (h ! m) of None \<Rightarrow> True | Some p \<Rightarrow> before L p m"
    proof (cases "input_layer (h ! m)")
      case None
      then show ?thesis by simp
    next
      case (Some p)
      have "m \<notin> set ?es" using nopred_entry Some by fastforce
      with reachable_cases [OF mR] obtain q where q: "q \<in> ?R" "m \<in> set (outbound_layers (h ! q))"
        by blast
      from pred_of [OF q] Some have "q = p" by simp
      with q have "p \<in> preds h ?R m" by (simp add: preds_def)
      from o [OF m this] Some show ?thesis by simp
    qed
  qed
  with t d s show ?thesis by blast
qed

text \<open>The graph \<open>Input\<close>, \<open>Hidden\<close>, \<open>Softmax\<close>, \<open>CrossEntropy\<close> for one sample,
  two features, two neurons and two classes, as the constructors build it.\<close>

definition example_input :: layer where
  "example_input =
     (blank Input)\<lparr>outbound_layers := [1], W := [[[1, 0], [0, 1]]], biases := [[0, 0]],
        num_images := 1, num_features := 2, num_neurons := 2, layer_value := [[0, 0]],
        W_gradients := [[0, 0]], b_gradients := [0], gradients := [[0, 0]]\<rparr>"

definition example_hidden :: layer where
  "example_hidden =
     (blank Hidden)\<lparr>input_layer := Some 0, outbound_layers := [2], W := [[[0, 0], [0, 0]]],
        biases := [[0, 0]], num_images := 1, num_features := 2, num_classes := 2,
        layer_value := [[0, 0]], W_gradients := [[0, 0]], b_gradients := [0],
        gradients := [[0, 0]]\<rparr>"

definition example_softmax :: layer where
  "example_softmax =
     (blank Softmax)\<lparr>input_layer := Some 1, outbound_layers := [3], num_images := 1,
        num_classes := 2, layer_value := [[0, 0]], gradients := [[0, 0]]\<rparr>"

definition example_cross_entropy :: layer where
  "example_cross_entropy =
     (blank CrossEntropy)\<lparr>input_layer := Some 2, num_images := 1, num_classes := 2,
        tmp_value := [0]\<rparr>"

definition example_heap :: heap where
  "example_heap = [example_input, example_hidden, example_softmax, example_cross_entropy]"

lemmas example_defs = example_heap_def example_input_def example_hidden_def example_softmax_def
  example_cross_entropy_def blank_def

definition example_feed :: feed_dict where
  "example_feed = [(0, [[1, 2]])]"

definition example_ideal :: "real list list" where
  "example_ideal = [[1, 0]]"

lemma example_heap_built:
  "example_heap =
     fst (CrossEntropy_init
       (fst (Softmax_init
         (fst (Hidden_init
           (fst (Input_init [] (1, 2, 2) [[[1, 0], [0, 1]]] [[0, 0]]))
           (Some 0) (1, 2, 2) [[[0, 0], [0, 0]]] [[0, 0]]))
         (Some 1)))
       (Some 2))"
  by (simp add: example_defs Input_init_def Hidden_init_def Softmax_init_def
      CrossEntropy_init_def Layer_init_def np_empty2_def Let_def numeral_2_eq_2)

lemma example_wired: "wired example_heap"
  by (simp add: wired_def example_defs upt_rec)

lemma example_acyclic: "acyclic (edges example_heap)"
proof (rule acyclic_edges_increasing)
  fix n m assume "n < length example_heap" "m \<in> set (outbound_layers (example_heap ! n))"
  then show "n < m"
    by (auto simp: example_defs less_Suc_eq)
qed

lemma example_entry: "entry_nodes example_heap example_feed"
  by (simp add: entry_nodes_def example_feed_def example_defs)

theorem topological_sort_order_witness:
  "wired example_heap \<and> acyclic (edges example_heap) \<and> entry_nodes example_heap example_feed \<and>
   (\<exists>h' L. topological_sort (\<lambda>L S. 0) example_heap example_feed example_ideal = Some (Inr (h', L))
      \<and> distinct L \<and> set L = reachable example_heap (map fst example_feed)
      \<and> after_predecessor example_heap L)"
  using topological_sort_order [OF example_wired example_acyclic example_entry, of "\<lambda>L S. 0" example_ideal]
    example_wired example_acyclic example_entry
  by blast

definition on_cycle_path :: "heap \<Rightarrow> nat \<Rightarrow> bool" where
  "on_cycle_path h n = (\<exists>c. (n, c) \<in> (edges h)\<^sup>* \<and> (c, c) \<in> (edges h)\<^sup>+)"

lemma on_cycle_path_step:
  assumes "on_cycle_path h n"
  shows "\<exists>m \<in> set (outbound_layers (h ! n)). on_cycle_path h m"
proof -
  from assms obtain c where nc: "(n, c) \<in> (edges h)\<^sup>*" and cc: "(c, c) \<in> (edges h)\<^sup>+"
    unfolding on_cycle_path_def by blast
  have "(n, c) \<in> (edges h)\<^sup>+"
  proof (cases "n = c")
    case True
    with cc show ?thesis by simp
  next
    case False
    with nc show ?thesis by (simp add: rtrancl_eq_or_trancl)
  qed
  then obtain m where nm: "(n, m) \<in> edges h" and mc: "(m, c) \<in> (edges h)\<^sup>*"
    by (meson tranclD)
  have "m \<in> set (outbound_layers (h ! n))" using nm by (simp add: edges_def)
  moreover have "on_cycle_path h m" unfolding on_cycle_path_def using mc cc by blast
  ultimately show ?thesis by blast
qed

lemma build_graph_Some_no_cycle:
  assumes "build_graph h q G = Some y"
  shows "good G \<longrightarrow> (\<forall>n\<in>set q. \<not> on_cycle_path h n)"
proof (rule build_graph.raw_induct
    [where P = "\<lambda>h q G y. good G \<longrightarrow> (\<forall>n\<in>set q. \<not> on_cycle_path h n)", OF _ assms],
    goal_cases)
  case (1 bg h q G y)
  show ?case
  proof (cases q)
    case Nil
    then show ?thesis by simp
  next
    case (Cons n rest)
    show ?thesis
    proof
      assume gG: "good G"
      let ?out = "outbound_layers (h ! n)"
      define G1 where "G1 = (if map_of G n = None then G @ [(n, ([], []))] else G)"
      have f1: "map_of G1 n \<noteq> None \<and> good G1"
      proof (cases "map_of G n = None")
        case True
        then have m: "map_of G1 = (map_of G)(n \<mapsto> ([], []))"
          by (simp add: G1_def map_of_snoc_fresh del: map_of_append)
        from graph_fresh(4) [OF True m gG] m show ?thesis by simp
      next
        case False
        then have "G1 = G" by (simp add: G1_def)
        with False gG show ?thesis by simp
      qed
      from add_edges_spec [of G1 n ?out rest] f1 obtain G2 where
        a: "add_edges n ?out (G1, rest) = Inr (G2, rest @ ?out)" and g2: "good G2"
        by blast
      from 1(2) have bgq: "bg h (rest @ ?out) G2 = Some y"
        using a by (simp add: Cons G1_def [symmetric])
      from 1(1) [OF bgq] g2 have no: "\<forall>m\<in>set (rest @ ?out). \<not> on_cycle_path h m"
        by blast
      have "\<not> on_cycle_path h n"
      proof
        assume "on_cycle_path h n"
        from on_cycle_path_step [OF this] no show False by auto
      qed
      with no show "\<forall>m\<in>set q. \<not> on_cycle_path h m"
        by (simp add: Cons)
    qed
  qed
qed

lemma build_graph_diverges:
  assumes "n \<in> set q" "on_cycle_path h n" "good G"
  shows "build_graph h q G = None"
proof (cases "build_graph h q G")
  case None
  then show ?thesis .
next
  case (Some y)
  from build_graph_Some_no_cycle [OF Some] assms show ?thesis by blast
qed

lemma topological_sort_diverges:
  assumes "e \<in> set (map fst feed)" "on_cycle_path h e"
  shows "topological_sort pick h feed ideal = None"
proof -
  have "good []" by (simp add: good_def)
  from build_graph_diverges [OF assms this] show ?thesis
    by (simp add: topological_sort_def)
qed

text \<open>
  Claim C2, as the code has it. When a cycle of the graph can be reached from a key of the
  feed dictionary, \<open>topological_sort\<close> does not return: its first loop puts the nodes of
  the cycle back on its work list for ever. So it returns no order and raises no error, and
  \<open>train_SGD\<close>, which calls it first, runs no forward and no backward pass and does not
  return either.
\<close>

theorem cycle_never_returns:
  assumes "e \<in> set (map fst feed)" and "(e, c) \<in> (edges h)\<^sup>*" and "(c, c) \<in> (edges h)\<^sup>+"
  shows "topological_sort pick h feed ideal = None \<and>
         train_SGD pick h feed ideal trainables learning_rate = None"
proof -
  have "on_cycle_path h e" unfolding on_cycle_path_def using assms(2,3) by blast
  from topological_sort_diverges [OF assms(1) this]
  show ?thesis by (simp add: train_SGD_def)
qed

text \<open>A graph with a cycle: the successor list of the \<open>Hidden\<close> layer of a two-layer
  graph has been given the \<open>Input\<close> layer.\<close>

definition cyclic_heap :: heap where
  "cyclic_heap =
     [(blank Input)\<lparr>outbound_layers := [1]\<rparr>,
      (blank Hidden)\<lparr>input_layer := Some 0, outbound_layers := [0]\<rparr>]"

definition pop_first :: "nat list \<Rightarrow> nat list \<Rightarrow> nat" where
  "pop_first L S = 0"

lemma cyclic_heap_edges: "(0, 1) \<in> edges cyclic_heap" "(1, 0) \<in> edges cyclic_heap"
  by (simp_all add: edges_def cyclic_heap_def blank_def)

lemma cyclic_heap_cycle: "(0, 0) \<in> (edges cyclic_heap)\<^sup>+"
  using cyclic_heap_edges by (meson trancl.simps)

theorem cycle_never_returns_witness:
  "0 \<in> set (map fst [(0, [[1]])]) \<and> (0, 0) \<in> (edges cyclic_heap)\<^sup>* \<and>
   (0, 0) \<in> (edges cyclic_heap)\<^sup>+ \<and>
   topological_sort pop_first cyclic_heap [(0, [[1]])] [[1]] = None \<and>
   train_SGD pop_first cyclic_heap [(0, [[1]])] [[1]] [] 1 = None"
  using cycle_never_returns [of 0 "[(0, [[1]])]" 0 cyclic_heap pop_first "[[1]]" "[]" 1]
    cyclic_heap_cycle
  by simp

theorem cycle_not_reported:
  "topological_sort pop_first cyclic_heap [(0, [[1]])] [[1]] = None"
proof -
  have "on_cycle_path cyclic_heap 0"
    unfolding on_cycle_path_def using cyclic_heap_cycle by blast
  then show ?thesis by (intro topological_sort_diverges) simp_all
qed

lemma sum_list_upt: "sum_list (map f [0..<m]) = (\<Sum>k<m. f k)"
  by (simp add: interv_sum_list_conv_sum_set_nat atLeast0LessThan)

definition affine_row :: "nat \<Rightarrow> real list \<Rightarrow> real list list \<Rightarrow> real list \<Rightarrow> real list" where
  "affine_row n x w b = map (\<lambda>j. (\<Sum>k<length x. x ! k * w ! k ! j) + b ! j) [0..<n]"

lemma affine_row_nth:
  "j < n \<Longrightarrow> affine_row n x w b ! j = (\<Sum>k<length x. x ! k * w ! k ! j) + b ! j"
  by (simp add: affine_row_def)

lemma length_affine_row: "length (affine_row n x w b) = n"
  by (simp add: affine_row_def)

lemma affine_step:
  assumes "length x = length w" "length b = n"
  shows "\<exists>hh. dot_vm n x w = Inr hh \<and> broadcast2 (+) hh b = Inr (affine_row n x w b)"
proof -
  let ?hh = "map (\<lambda>j. (\<Sum>k<length x. x ! k * w ! k ! j)) [0..<n]"
  have 1: "dot_vm n x w = Inr ?hh"
    using assms(1) by (simp add: dot_vm_def sum_list_upt)
  have "broadcast2 (+) ?hh b = Inr (map (\<lambda>j. ?hh ! j + b ! j) [0..<n])"
    using assms(2) by (simp add: broadcast2_def)
  also have "map (\<lambda>j. ?hh ! j + b ! j) [0..<n] = affine_row n x w b"
    unfolding affine_row_def by (rule map_cong) simp_all
  finally show ?thesis using 1 by blast
qed

definition affine_shapes :: "nat \<Rightarrow> layer \<Rightarrow> real list list \<Rightarrow> bool" where
  "affine_shapes n l x =
     list_all (\<lambda>i. i < length x \<and> i < length (W l) \<and> i < length (biases l) \<and>
         i < length (layer_value l) \<and> length (x ! i) = length (W l ! i) \<and>
         list_all (\<lambda>r. length r = n) (W l ! i) \<and>
         length (biases l ! i) = n \<and> length (layer_value l ! i) = n)
       [0..<num_images l]"

lemma affine_rows_spec:
  assumes "distinct idx"
    and "\<And>i. i \<in> set idx \<Longrightarrow> i < length x \<and> i < length w \<and> i < length b \<and> i < length v \<and>
          length (x ! i) = length (w ! i) \<and> length (b ! i) = n \<and> length (v ! i) = n"
  shows "\<exists>v'. affine_rows n (Some (Array2 x)) w b idx v = Inr v' \<and> length v' = length v \<and>
           (\<forall>i<length v. v' ! i =
              (if i \<in> set idx then affine_row n (x ! i) (w ! i) (b ! i) else v ! i))"
  using assms
proof (induction idx arbitrary: v)
  case Nil
  then show ?case by simp
next
  case (Cons i rest)
  have a: "i < length x" "i < length w" "i < length b" "i < length v"
    "length (x ! i) = length (w ! i)" "length (b ! i) = n" "length (v ! i) = n"
    using Cons.prems(2) [of i] by simp_all
  let ?r = "affine_row n (x ! i) (w ! i) (b ! i)"
  from affine_step [OF a(5,6)] obtain hh where
    hh: "dot_vm n (x ! i) (w ! i) = Inr hh" "broadcast2 (+) hh (b ! i) = Inr ?r" by blast
  have sr: "set_row v i ?r = Inr (v[i := ?r])"
    using a(4,7) by (simp add: set_row_def length_affine_row)
  have step: "affine_rows n (Some (Array2 x)) w b (i # rest) v =
      affine_rows n (Some (Array2 x)) w b rest (v[i := ?r])"
    using a(1,2,3) hh sr by (simp add: subscript_opt_def subscript_def nth_row_def)
  have d: "distinct rest" and ni: "i \<notin> set rest" using Cons.prems(1) by simp_all
  have p: "i' < length x \<and> i' < length w \<and> i' < length b \<and> i' < length (v[i := ?r]) \<and>
          length (x ! i') = length (w ! i') \<and> length (b ! i') = n \<and> length (v[i := ?r] ! i') = n"
    if "i' \<in> set rest" for i'
  proof -
    have "i' \<noteq> i" using that ni by blast
    then show ?thesis using Cons.prems(2) [of i'] that by simp
  qed
  from Cons.IH [OF d p] obtain v' where
    r: "affine_rows n (Some (Array2 x)) w b rest (v[i := ?r]) = Inr v'"
    and l: "length v' = length (v[i := ?r])"
    and e: "\<And>k. k < length (v[i := ?r]) \<Longrightarrow> v' ! k =
              (if k \<in> set rest then affine_row n (x ! k) (w ! k) (b ! k) else v[i := ?r] ! k)"
    by blast
  have "v' ! k = (if k \<in> set (i # rest) then affine_row n (x ! k) (w ! k) (b ! k) else v ! k)"
    if "k < length v" for k
    using e [of k] that by (cases "k = i") auto
  with step r l show ?case by simp
qed

lemma affine_shapesD:
  assumes "affine_shapes n l x" "i < num_images l"
  shows "i < length x \<and> i < length (W l) \<and> i < length (biases l) \<and> i < length (layer_value l) \<and>
     length (x ! i) = length (W l ! i) \<and> length (biases l ! i) = n \<and>
     length (layer_value l ! i) = n"
  using assms unfolding affine_shapes_def list_all_iff by simp

lemma affine_rows_layer:
  assumes "affine_shapes n l x"
  shows "\<exists>v. affine_rows n (Some (Array2 x)) (W l) (biases l) [0..<num_images l] (layer_value l)
             = Inr v \<and>
           length v = length (layer_value l) \<and>
           (\<forall>i<num_images l. \<forall>j<n. v ! i ! j =
              (\<Sum>k<length (x ! i). x ! i ! k * W l ! i ! k ! j) + biases l ! i ! j)"
proof -
  have "\<exists>v'. affine_rows n (Some (Array2 x)) (W l) (biases l) [0..<num_images l] (layer_value l)
             = Inr v' \<and> length v' = length (layer_value l) \<and>
           (\<forall>i<length (layer_value l). v' ! i =
              (if i \<in> set [0..<num_images l]
               then affine_row n (x ! i) (W l ! i) (biases l ! i) else layer_value l ! i))"
  proof (rule affine_rows_spec)
    show "distinct [0..<num_images l]" by simp
    show "i < length x \<and> i < length (W l) \<and> i < length (biases l) \<and> i < length (layer_value l) \<and>
       length (x ! i) = length (W l ! i) \<and> length (biases l ! i) = n \<and>
       length (layer_value l ! i) = n" if "i \<in> set [0..<num_images l]" for i
      using affine_shapesD [OF assms, of i] that by simp
  qed
  then obtain v where r: "affine_rows n (Some (Array2 x)) (W l) (biases l) [0..<num_images l]
        (layer_value l) = Inr v" and len: "length v = length (layer_value l)"
    and e: "\<And>i. i < length (layer_value l) \<Longrightarrow> v ! i =
              (if i \<in> set [0..<num_images l]
               then affine_row n (x ! i) (W l ! i) (biases l ! i) else layer_value l ! i)"
    by blast
  have "v ! i ! j = (\<Sum>k<length (x ! i). x ! i ! k * W l ! i ! k ! j) + biases l ! i ! j"
    if "i < num_images l" "j < n" for i j
  proof -
    have "i < length (layer_value l)" using affine_shapesD [OF assms that(1)] by simp
    from e [OF this] that(1) have "v ! i = affine_row n (x ! i) (W l ! i) (biases l ! i)" by simp
    then show ?thesis by (simp add: affine_row_nth [OF that(2)])
  qed
  with r len show ?thesis by blast
qed

text \<open>
  Claim C5. When the shapes agree (for every sample \<open>i\<close> the row \<open>X[i]\<close> is as long as
  \<open>W[i]\<close> has rows, and \<open>W[i]\<close>, \<open>biases[i]\<close> and \<open>value[i]\<close> have \<open>W.shape[-1]\<close>
  columns), \<open>forward\<close> of an \<open>Input\<close> and of a \<open>Hidden\<close> layer returns, changes no
  attribute but \<open>value\<close> (and \<open>X\<close>), and leaves in \<open>value[i][j]\<close> the sum over
  \<open>k\<close> of \<open>X[i][k] * W[i][k][j]\<close> plus \<open>biases[i][j]\<close>. For \<open>Input\<close>, \<open>X\<close> is
  the batch that was injected; \<open>Hidden\<close> first sets \<open>X\<close> to the \<open>value\<close> of its
  predecessor.
\<close>

theorem affine_forward_value:
  "(X l = Some (Array2 x) \<and> affine_shapes (num_neurons l) l x \<longrightarrow>
      (\<exists>v. Input_forward l = Inr (l\<lparr>layer_value := v\<rparr>) \<and>
         (\<forall>i<num_images l. \<forall>j<num_neurons l. v ! i ! j =
            (\<Sum>k<length (x ! i). x ! i ! k * W l ! i ! k ! j) + biases l ! i ! j))) \<and>
   (input_layer l = Some p \<and> read_value (h ! p) = Inr (Array2 x) \<and>
    affine_shapes (num_classes l) l x \<longrightarrow>
      (\<exists>v. Hidden_forward h l = Inr (l\<lparr>X := Some (Array2 x), layer_value := v\<rparr>) \<and>
         (\<forall>i<num_images l. \<forall>j<num_classes l. v ! i ! j =
            (\<Sum>k<length (x ! i). x ! i ! k * W l ! i ! k ! j) + biases l ! i ! j)))"
proof (intro conjI impI)
  assume a: "X l = Some (Array2 x) \<and> affine_shapes (num_neurons l) l x"
  from affine_rows_layer [of "num_neurons l" l x] a obtain v where
    "affine_rows (num_neurons l) (Some (Array2 x)) (W l) (biases l) [0..<num_images l]
       (layer_value l) = Inr v"
    "\<forall>i<num_images l. \<forall>j<num_neurons l. v ! i ! j =
       (\<Sum>k<length (x ! i). x ! i ! k * W l ! i ! k ! j) + biases l ! i ! j"
    by blast
  moreover then have "Input_forward l = Inr (l\<lparr>layer_value := v\<rparr>)"
    using a by (simp add: Input_forward_def)
  ultimately show "\<exists>v. Input_forward l = Inr (l\<lparr>layer_value := v\<rparr>) \<and>
         (\<forall>i<num_images l. \<forall>j<num_neurons l. v ! i ! j =
            (\<Sum>k<length (x ! i). x ! i ! k * W l ! i ! k ! j) + biases l ! i ! j)"
    by blast
next
  assume a: "input_layer l = Some p \<and> read_value (h ! p) = Inr (Array2 x) \<and>
    affine_shapes (num_classes l) l x"
  from affine_rows_layer [of "num_classes l" l x] a obtain v where
    "affine_rows (num_classes l) (Some (Array2 x)) (W l) (biases l) [0..<num_images l]
       (layer_value l) = Inr v"
    "\<forall>i<num_images l. \<forall>j<num_classes l. v ! i ! j =
       (\<Sum>k<length (x ! i). x ! i ! k * W l ! i ! k ! j) + biases l ! i ! j"
    by blast
  moreover then have "Hidden_forward h l = Inr (l\<lparr>X := Some (Array2 x), layer_value := v\<rparr>)"
    using a by (simp add: Hidden_forward_def)
  ultimately show "\<exists>v. Hidden_forward h l = Inr (l\<lparr>X := Some (Array2 x), layer_value := v\<rparr>) \<and>
         (\<forall>i<num_images l. \<forall>j<num_classes l. v ! i ! j =
            (\<Sum>k<length (x ! i). x ! i ! k * W l ! i ! k ! j) + biases l ! i ! j)"
    by blast
qed

definition fed_input :: layer where
  "fed_input = example_input\<lparr>X := Some (Array2 [[1, 2]])\<rparr>"

lemma fed_input_forward: "Input_forward fed_input = Inr (fed_input\<lparr>layer_value := [[1, 2]]\<rparr>)"
  by (simp add: Input_forward_def fed_input_def example_defs subscript_opt_def subscript_def
      nth_row_def dot_vm_def broadcast2_def set_row_def upt_rec)

lemma example_hidden_forward:
  "Hidden_forward [fed_input\<lparr>layer_value := [[1, 2]]\<rparr>] example_hidden =
     Inr (example_hidden\<lparr>X := Some (Array2 [[1, 2]]), layer_value := [[0, 0]]\<rparr>)"
  by (simp add: Hidden_forward_def read_value_def fed_input_def example_defs subscript_opt_def
      subscript_def nth_row_def dot_vm_def broadcast2_def set_row_def upt_rec)

theorem affine_forward_value_witness:
  "X fed_input = Some (Array2 [[1, 2]]) \<and>
   affine_shapes (num_neurons fed_input) fed_input [[1, 2]] \<and>
   Input_forward fed_input = Inr (fed_input\<lparr>layer_value := [[1 * 1 + 2 * 0 + 0, 1 * 0 + 2 * 1 + 0]]\<rparr>) \<and>
   input_layer example_hidden = Some 0 \<and>
   read_value ([fed_input\<lparr>layer_value := [[1, 2]]\<rparr>] ! 0) = Inr (Array2 [[1, 2]]) \<and>
   affine_shapes (num_classes example_hidden) example_hidden [[1, 2]] \<and>
   Hidden_forward [fed_input\<lparr>layer_value := [[1, 2]]\<rparr>] example_hidden =
     Inr (example_hidden\<lparr>X := Some (Array2 [[1, 2]]),
            layer_value := [[1 * 0 + 2 * 0 + 0, 1 * 0 + 2 * 0 + 0]]\<rparr>)"
proof -
  have 1: "X fed_input = Some (Array2 [[1, 2]])"
    by (simp add: fed_input_def)
  have 2: "affine_shapes (num_neurons fed_input) fed_input [[1, 2]]"
    by (simp add: affine_shapes_def fed_input_def example_defs)
  have 3: "input_layer example_hidden = Some 0"
    by (simp add: example_defs)
  have 4: "read_value ([fed_input\<lparr>layer_value := [[1, 2]]\<rparr>] ! 0) = Inr (Array2 [[1, 2]])"
    by (simp add: read_value_def fed_input_def example_defs)
  have 5: "affine_shapes (num_classes example_hidden) example_hidden [[1, 2]]"
    by (simp add: affine_shapes_def example_defs)
  from affine_forward_value [of fed_input "[[1, 2]]"] 1 2
  have "\<exists>v. Input_forward fed_input = Inr (fed_input\<lparr>layer_value := v\<rparr>)" by blast
  moreover from affine_forward_value [where l = example_hidden and p = 0
      and h = "[fed_input\<lparr>layer_value := [[1, 2]]\<rparr>]" and x = "[[1, 2]]"] 3 4 5
  have "\<exists>v. Hidden_forward [fed_input\<lparr>layer_value := [[1, 2]]\<rparr>] example_hidden =
     Inr (example_hidden\<lparr>X := Some (Array2 [[1, 2]]), layer_value := v\<rparr>)" by blast
  ultimately show ?thesis
    using 1 2 3 4 5 fed_input_forward example_hidden_forward by simp
qed

definition backward_shapes :: "nat \<Rightarrow> layer \<Rightarrow> real list list \<Rightarrow> bool" where
  "backward_shapes n l g =
     list_all (\<lambda>i. i < length (W l) \<and> i < length g \<and> i < length (biases l) \<and>
         i < length (W_gradients l) \<and> i < length (b_gradients l) \<and> i < length (gradients l) \<and>
         list_all (\<lambda>r. length r = n) (W l ! i) \<and>
         length (g ! i) = n \<and> length (biases l ! i) = n \<and>
         length (W_gradients l ! i) = length (W l ! i) \<and>
         length (gradients l ! i) = length (W l ! i))
       [0..<num_images l]"

definition W_gradient_row :: "nat \<Rightarrow> real list list \<Rightarrow> real list \<Rightarrow> real list" where
  "W_gradient_row n w g = map (\<lambda>r. \<Sum>j<n. r ! j * g ! j) w"

definition b_gradient :: "nat \<Rightarrow> real list \<Rightarrow> real list \<Rightarrow> real" where
  "b_gradient n g b = (\<Sum>j<n. g ! j * b ! j)"

lemma gradient_rows_spec:
  assumes "distinct idx"
    and "\<And>i. i \<in> set idx \<Longrightarrow> i < length w \<and> i < length g \<and> i < length b \<and>
          i < length wg \<and> i < length bg \<and> i < length gr \<and>
          length (g ! i) = n \<and> length (b ! i) = n \<and>
          length (wg ! i) = length (w ! i) \<and> length (gr ! i) = length (w ! i)"
  shows "\<exists>wg' bg' gr'. gradient_rows n w b g idx (wg, bg, gr) = Inr (wg', bg', gr') \<and>
           (\<forall>i. wg' ! i = (if i \<in> set idx then W_gradient_row n (w ! i) (g ! i) else wg ! i)) \<and>
           (\<forall>i. bg' ! i = (if i \<in> set idx then b_gradient n (g ! i) (b ! i) else bg ! i)) \<and>
           (\<forall>i. gr' ! i = (if i \<in> set idx
              then map (\<lambda>x. x * b_gradient n (g ! i) (b ! i)) (W_gradient_row n (w ! i) (g ! i))
              else gr ! i))"
  using assms
proof (induction idx arbitrary: wg bg gr)
  case Nil
  then show ?case by simp
next
  case (Cons i rest)
  have a: "i < length w" "i < length g" "i < length b" "i < length wg" "i < length bg"
    "i < length gr" "length (g ! i) = n" "length (b ! i) = n"
    "length (wg ! i) = length (w ! i)" "length (gr ! i) = length (w ! i)"
    using Cons.prems(2) [of i] by simp_all
  let ?wv = "W_gradient_row n (w ! i) (g ! i)"
  let ?s = "b_gradient n (g ! i) (b ! i)"
  let ?gv = "map (\<lambda>x. x * ?s) ?wv"
  have 1: "dot_mv n (w ! i) (g ! i) = Inr ?wv"
    using a(7) by (simp add: dot_mv_def W_gradient_row_def sum_list_upt)
  have 2: "set_row wg i ?wv = Inr (wg[i := ?wv])"
    using a(4,9) by (simp add: set_row_def W_gradient_row_def)
  have 3: "dot_vv (g ! i) (b ! i) = Inr ?s"
    using a(7,8) by (simp add: dot_vv_def b_gradient_def sum_list_upt)
  have 4: "set_row gr i ?gv = Inr (gr[i := ?gv])"
    using a(6,10) by (simp add: set_row_def W_gradient_row_def)
  have step: "gradient_rows n w b g (i # rest) (wg, bg, gr) =
      gradient_rows n w b g rest (wg[i := ?wv], bg[i := ?s], gr[i := ?gv])"
    using a(1-6) 1 2 3 4 by (simp add: nth_row_def Let_def)
  have d: "distinct rest" and ni: "i \<notin> set rest" using Cons.prems(1) by simp_all
  have p: "i' < length w \<and> i' < length g \<and> i' < length b \<and>
          i' < length (wg[i := ?wv]) \<and> i' < length (bg[i := ?s]) \<and> i' < length (gr[i := ?gv]) \<and>
          length (g ! i') = n \<and> length (b ! i') = n \<and>
          length (wg[i := ?wv] ! i') = length (w ! i') \<and>
          length (gr[i := ?gv] ! i') = length (w ! i')"
    if "i' \<in> set rest" for i'
  proof -
    have "i' \<noteq> i" using that ni by blast
    then show ?thesis using Cons.prems(2) [of i'] that by simp
  qed
  from Cons.IH [OF d p] obtain wg' bg' gr' where
    r: "gradient_rows n w b g rest (wg[i := ?wv], bg[i := ?s], gr[i := ?gv]) = Inr (wg', bg', gr')"
    and e1: "\<And>k. wg' ! k = (if k \<in> set rest then W_gradient_row n (w ! k) (g ! k)
                else wg[i := ?wv] ! k)"
    and e2: "\<And>k. bg' ! k = (if k \<in> set rest then b_gradient n (g ! k) (b ! k)
                else bg[i := ?s] ! k)"
    and e3: "\<And>k. gr' ! k = (if k \<in> set rest
                then map (\<lambda>x. x * b_gradient n (g ! k) (b ! k)) (W_gradient_row n (w ! k) (g ! k))
                else gr[i := ?gv] ! k)"
    by blast
  have f1: "wg' ! k = (if k \<in> set (i # rest) then W_gradient_row n (w ! k) (g ! k) else wg ! k)"
    for k using e1 [of k] a(4) by (cases "k = i") auto
  have f2: "bg' ! k = (if k \<in> set (i # rest) then b_gradient n (g ! k) (b ! k) else bg ! k)"
    for k using e2 [of k] a(5) by (cases "k = i") auto
  have f3: "gr' ! k = (if k \<in> set (i # rest)
      then map (\<lambda>x. x * b_gradient n (g ! k) (b ! k)) (W_gradient_row n (w ! k) (g ! k))
      else gr ! k)"
    for k using e3 [of k] a(6) by (cases "k = i") auto
  from step r f1 f2 f3 show ?case by simp
qed

lemma backward_shapesD:
  assumes "backward_shapes n l g" "i < num_images l"
  shows "i < length (W l) \<and> i < length g \<and> i < length (biases l) \<and>
     i < length (W_gradients l) \<and> i < length (b_gradients l) \<and> i < length (gradients l) \<and>
     length (g ! i) = n \<and> length (biases l ! i) = n \<and>
     length (W_gradients l ! i) = length (W l ! i) \<and>
     length (gradients l ! i) = length (W l ! i)"
  using assms unfolding backward_shapes_def list_all_iff by simp

lemma affine_backward_spec:
  assumes "outbound_layers l = s # rest" "read_gradients (h ! s) = Inr g" "backward_shapes n l g"
  shows "\<exists>wg bg gr. affine_backward n h l =
             Inr (l\<lparr>input_gradients := g, W_gradients := wg, b_gradients := bg, gradients := gr\<rparr>) \<and>
           (\<forall>i<num_images l.
              (\<forall>k<length (W l ! i). wg ! i ! k = (\<Sum>j<n. W l ! i ! k ! j * g ! i ! j)) \<and>
              bg ! i = (\<Sum>j<n. g ! i ! j * biases l ! i ! j) \<and>
              (\<forall>k<length (W l ! i). gr ! i ! k = wg ! i ! k * bg ! i))"
proof -
  have "\<exists>wg' bg' gr'. gradient_rows n (W l) (biases l) g [0..<num_images l]
              (W_gradients l, b_gradients l, gradients l) = Inr (wg', bg', gr') \<and>
           (\<forall>i. wg' ! i = (if i \<in> set [0..<num_images l]
              then W_gradient_row n (W l ! i) (g ! i) else W_gradients l ! i)) \<and>
           (\<forall>i. bg' ! i = (if i \<in> set [0..<num_images l]
              then b_gradient n (g ! i) (biases l ! i) else b_gradients l ! i)) \<and>
           (\<forall>i. gr' ! i = (if i \<in> set [0..<num_images l]
              then map (\<lambda>x. x * b_gradient n (g ! i) (biases l ! i))
                     (W_gradient_row n (W l ! i) (g ! i))
              else gradients l ! i))"
  proof (rule gradient_rows_spec)
    show "distinct [0..<num_images l]" by simp
    show "i < length (W l) \<and> i < length g \<and> i < length (biases l) \<and>
       i < length (W_gradients l) \<and> i < length (b_gradients l) \<and> i < length (gradients l) \<and>
       length (g ! i) = n \<and> length (biases l ! i) = n \<and>
       length (W_gradients l ! i) = length (W l ! i) \<and>
       length (gradients l ! i) = length (W l ! i)" if "i \<in> set [0..<num_images l]" for i
      using backward_shapesD [OF assms(3), of i] that by simp
  qed
  then obtain wg bg gr where
    r: "gradient_rows n (W l) (biases l) g [0..<num_images l]
          (W_gradients l, b_gradients l, gradients l) = Inr (wg, bg, gr)"
    and e1: "\<And>i. i < num_images l \<Longrightarrow> wg ! i = W_gradient_row n (W l ! i) (g ! i)"
    and e2: "\<And>i. i < num_images l \<Longrightarrow> bg ! i = b_gradient n (g ! i) (biases l ! i)"
    and e3: "\<And>i. i < num_images l \<Longrightarrow> gr ! i =
          map (\<lambda>x. x * b_gradient n (g ! i) (biases l ! i)) (W_gradient_row n (W l ! i) (g ! i))"
    by (simp split: if_splits)
  have "affine_backward n h l =
      Inr (l\<lparr>input_gradients := g, W_gradients := wg, b_gradients := bg, gradients := gr\<rparr>)"
    using assms(1,2) r by (simp add: affine_backward_def)
  moreover have "(\<forall>k<length (W l ! i). wg ! i ! k = (\<Sum>j<n. W l ! i ! k ! j * g ! i ! j)) \<and>
      bg ! i = (\<Sum>j<n. g ! i ! j * biases l ! i ! j) \<and>
      (\<forall>k<length (W l ! i). gr ! i ! k = wg ! i ! k * bg ! i)" if "i < num_images l" for i
    using e1 [OF that] e2 [OF that] e3 [OF that]
    by (simp add: W_gradient_row_def b_gradient_def)
  ultimately show ?thesis by blast
qed

text \<open>
  Claim C6. Let an \<open>Input\<close> or \<open>Hidden\<close> layer have a successor, let the first
  successor have the attribute \<open>gradients\<close> (it is no \<open>CrossEntropy\<close> layer), and let
  the shapes agree. Then \<open>backward\<close> returns, stores the successor's \<open>gradients\<close> in
  \<open>input_gradients\<close>, and for every sample \<open>i\<close> leaves in \<open>W_gradients[i]\<close> the
  product of the matrix \<open>W[i]\<close> with that row of gradients, in \<open>b_gradients[i]\<close> the dot
  product of the row with \<open>biases[i]\<close>, and in \<open>gradients[i]\<close> the row
  \<open>W_gradients[i]\<close> times the number \<open>b_gradients[i]\<close>.
\<close>

theorem affine_backward_gradients:
  "(outbound_layers l = s # rest \<and> read_gradients (h ! s) = Inr g \<and>
    backward_shapes (num_neurons l) l g \<longrightarrow>
      (\<exists>wg bg gr. Input_backward h l =
           Inr (l\<lparr>input_gradients := g, W_gradients := wg, b_gradients := bg, gradients := gr\<rparr>) \<and>
         (\<forall>i<num_images l.
            (\<forall>k<length (W l ! i). wg ! i ! k = (\<Sum>j<num_neurons l. W l ! i ! k ! j * g ! i ! j)) \<and>
            bg ! i = (\<Sum>j<num_neurons l. g ! i ! j * biases l ! i ! j) \<and>
            (\<forall>k<length (W l ! i). gr ! i ! k = wg ! i ! k * bg ! i)))) \<and>
   (outbound_layers l = s # rest \<and> read_gradients (h ! s) = Inr g \<and>
    backward_shapes (num_classes l) l g \<longrightarrow>
      (\<exists>wg bg gr. Hidden_backward h l =
           Inr (l\<lparr>input_gradients := g, W_gradients := wg, b_gradients := bg, gradients := gr\<rparr>) \<and>
         (\<forall>i<num_images l.
            (\<forall>k<length (W l ! i). wg ! i ! k = (\<Sum>j<num_classes l. W l ! i ! k ! j * g ! i ! j)) \<and>
            bg ! i = (\<Sum>j<num_classes l. g ! i ! j * biases l ! i ! j) \<and>
            (\<forall>k<length (W l ! i). gr ! i ! k = wg ! i ! k * bg ! i))))"
  unfolding Input_backward_def Hidden_backward_def
  using affine_backward_spec [of l s rest h g "num_neurons l"]
    affine_backward_spec [of l s rest h g "num_classes l"]
  by blast

definition example_input_b :: layer where
  "example_input_b = example_input\<lparr>biases := [[1, 2]]\<rparr>"

definition example_hidden_b :: layer where
  "example_hidden_b = example_hidden\<lparr>W := [[[1, 2], [3, 4]]], biases := [[1, 1]],
     gradients := [[3, 4]]\<rparr>"

definition example_softmax_b :: layer where
  "example_softmax_b = example_softmax\<lparr>gradients := [[1, 1]]\<rparr>"

lemma example_input_backward:
  "Input_backward [example_input_b, example_hidden_b] example_input_b =
     Inr (example_input_b\<lparr>input_gradients := [[3, 4]], W_gradients := [[3, 4]],
            b_gradients := [11], gradients := [[33, 44]]\<rparr>)"
  by (simp add: Input_backward_def affine_backward_def read_gradients_def nth_row_def dot_mv_def
      dot_vv_def set_row_def upt_rec Let_def example_input_b_def example_hidden_b_def example_defs)

lemma example_hidden_backward:
  "Hidden_backward [example_input_b, example_hidden_b, example_softmax_b] example_hidden_b =
     Inr (example_hidden_b\<lparr>input_gradients := [[1, 1]], W_gradients := [[3, 7]],
            b_gradients := [2], gradients := [[6, 14]]\<rparr>)"
  by (simp add: Hidden_backward_def affine_backward_def read_gradients_def nth_row_def dot_mv_def
      dot_vv_def set_row_def upt_rec Let_def example_softmax_b_def example_hidden_b_def
      example_defs)

theorem affine_backward_gradients_witness:
  "outbound_layers example_input_b = 1 # [] \<and>
   read_gradients ([example_input_b, example_hidden_b] ! 1) = Inr [[3, 4]] \<and>
   backward_shapes (num_neurons example_input_b) example_input_b [[3, 4]] \<and>
   Input_backward [example_input_b, example_hidden_b] example_input_b =
     Inr (example_input_b\<lparr>input_gradients := [[3, 4]], W_gradients := [[3, 4]],
            b_gradients := [11], gradients := [[33, 44]]\<rparr>) \<and>
   outbound_layers example_hidden_b = 2 # [] \<and>
   read_gradients ([example_input_b, example_hidden_b, example_softmax_b] ! 2) = Inr [[1, 1]] \<and>
   backward_shapes (num_classes example_hidden_b) example_hidden_b [[1, 1]] \<and>
   Hidden_backward [example_input_b, example_hidden_b, example_softmax_b] example_hidden_b =
     Inr (example_hidden_b\<lparr>input_gradients := [[1, 1]], W_gradients := [[3, 7]],
            b_gradients := [2], gradients := [[6, 14]]\<rparr>)"
proof -
  have 1: "outbound_layers example_input_b = 1 # []"
    by (simp add: example_input_b_def example_defs)
  have 2: "read_gradients ([example_input_b, example_hidden_b] ! 1) = Inr [[3, 4]]"
    by (simp add: read_gradients_def example_hidden_b_def example_defs)
  have 3: "backward_shapes (num_neurons example_input_b) example_input_b [[3, 4]]"
    by (simp add: backward_shapes_def example_input_b_def example_defs)
  have 4: "outbound_layers example_hidden_b = 2 # []"
    by (simp add: example_hidden_b_def example_defs)
  have 5: "read_gradients ([example_input_b, example_hidden_b, example_softmax_b] ! 2) = Inr [[1, 1]]"
    by (simp add: read_gradients_def example_softmax_b_def example_defs)
  have 6: "backward_shapes (num_classes example_hidden_b) example_hidden_b [[1, 1]]"
    by (simp add: backward_shapes_def example_hidden_b_def example_defs)
  from affine_backward_gradients [where l = example_input_b and s = 1 and rest = "[]"
      and h = "[example_input_b, example_hidden_b]" and g = "[[3, 4]]"] 1 2 3
  have "\<exists>wg bg gr. Input_backward [example_input_b, example_hidden_b] example_input_b =
      Inr (example_input_b\<lparr>input_gradients := [[3, 4]], W_gradients := wg, b_gradients := bg,
             gradients := gr\<rparr>)"
    by blast
  moreover from affine_backward_gradients [where l = example_hidden_b and s = 2 and rest = "[]"
      and h = "[example_input_b, example_hidden_b, example_softmax_b]" and g = "[[1, 1]]"] 4 5 6
  have "\<exists>wg bg gr. Hidden_backward [example_input_b, example_hidden_b, example_softmax_b]
        example_hidden_b =
      Inr (example_hidden_b\<lparr>input_gradients := [[1, 1]], W_gradients := wg, b_gradients := bg,
             gradients := gr\<rparr>)"
    by blast
  ultimately show ?thesis
    using 1 2 3 4 5 6 example_input_backward example_hidden_backward by simp
qed

definition softmax_shapes :: "layer \<Rightarrow> real list list \<Rightarrow> bool" where
  "softmax_shapes l x =
     list_all (\<lambda>i. i < length x \<and> i < length (layer_value l) \<and>
         length (layer_value l ! i) = length (x ! i))
       [0..<num_images l]"

lemma softmax_row_nth:
  "j < length x \<Longrightarrow> softmax_row x ! j = exp (x ! j) / (\<Sum>k<length x. exp (x ! k))"
proof -
  have "map exp x = map (\<lambda>k. exp (x ! k)) [0..<length x]"
    by (rule nth_equalityI) simp_all
  then have "sum_list (map exp x) = (\<Sum>k<length x. exp (x ! k))"
    using sum_list_upt [of "\<lambda>k. exp (x ! k)" "length x"] by simp
  then show "j < length x \<Longrightarrow> softmax_row x ! j = exp (x ! j) / (\<Sum>k<length x. exp (x ! k))"
    by (simp add: softmax_row_def)
qed

lemma softmax_rows_spec:
  assumes "distinct idx"
    and "\<And>i. i \<in> set idx \<Longrightarrow> i < length x \<and> i < length v \<and> length (v ! i) = length (x ! i)"
  shows "\<exists>v'. softmax_rows (Array2 x) idx v = Inr v' \<and>
           (\<forall>i. v' ! i = (if i \<in> set idx then softmax_row (x ! i) else v ! i))"
  using assms
proof (induction idx arbitrary: v)
  case Nil
  then show ?case by simp
next
  case (Cons i rest)
  have a: "i < length x" "i < length v" "length (v ! i) = length (x ! i)"
    using Cons.prems(2) [of i] by simp_all
  let ?r = "softmax_row (x ! i)"
  have sr: "set_row v i ?r = Inr (v[i := ?r])"
    using a by (simp add: set_row_def softmax_row_def)
  have step: "softmax_rows (Array2 x) (i # rest) v = softmax_rows (Array2 x) rest (v[i := ?r])"
    using a(1) sr by (simp add: subscript_def)
  have d: "distinct rest" and ni: "i \<notin> set rest" using Cons.prems(1) by simp_all
  have p: "i' < length x \<and> i' < length (v[i := ?r]) \<and> length (v[i := ?r] ! i') = length (x ! i')"
    if "i' \<in> set rest" for i'
  proof -
    have "i' \<noteq> i" using that ni by blast
    then show ?thesis using Cons.prems(2) [of i'] that by simp
  qed
  from Cons.IH [OF d p] obtain v' where
    r: "softmax_rows (Array2 x) rest (v[i := ?r]) = Inr v'"
    and e: "\<And>k. v' ! k = (if k \<in> set rest then softmax_row (x ! k) else v[i := ?r] ! k)"
    by blast
  have "v' ! k = (if k \<in> set (i # rest) then softmax_row (x ! k) else v ! k)" for k
    using e [of k] a(2) by (cases "k = i") auto
  with step r show ?case by simp
qed

text \<open>
  Claim C4. Let the predecessor's \<open>value\<close> be an array with a row for every sample, each as
  wide as the row of the layer's own \<open>value\<close>. Then \<open>Softmax.forward\<close> returns, changes
  no attribute but \<open>value\<close>, and leaves in \<open>value[i][j]\<close> the exponential of the
  predecessor's entry divided by the sum of the exponentials of its row \<open>i\<close>.
\<close>

theorem softmax_forward_value:
  "input_layer l = Some p \<and> read_value (h ! p) = Inr (Array2 x) \<and> softmax_shapes l x \<longrightarrow>
     (\<exists>v. Softmax_forward h l = Inr (l\<lparr>layer_value := v\<rparr>) \<and>
        (\<forall>i<num_images l. length (v ! i) = length (x ! i) \<and>
           (\<forall>j<length (x ! i). v ! i ! j = exp (x ! i ! j) / (\<Sum>k<length (x ! i). exp (x ! i ! k)))))"
proof
  assume a: "input_layer l = Some p \<and> read_value (h ! p) = Inr (Array2 x) \<and> softmax_shapes l x"
  have "\<exists>v'. softmax_rows (Array2 x) [0..<num_images l] (layer_value l) = Inr v' \<and>
           (\<forall>i. v' ! i = (if i \<in> set [0..<num_images l] then softmax_row (x ! i)
                          else layer_value l ! i))"
  proof (rule softmax_rows_spec)
    show "distinct [0..<num_images l]" by simp
    show "i < length x \<and> i < length (layer_value l) \<and> length (layer_value l ! i) = length (x ! i)"
      if "i \<in> set [0..<num_images l]" for i
      using a that unfolding softmax_shapes_def list_all_iff by simp
  qed
  then obtain v where r: "softmax_rows (Array2 x) [0..<num_images l] (layer_value l) = Inr v"
    and e: "\<And>i. i < num_images l \<Longrightarrow> v ! i = softmax_row (x ! i)"
    by (simp split: if_splits)
  have "Softmax_forward h l = Inr (l\<lparr>layer_value := v\<rparr>)"
    using a r by (simp add: Softmax_forward_def)
  moreover have "length (v ! i) = length (x ! i) \<and>
      (\<forall>j<length (x ! i). v ! i ! j = exp (x ! i ! j) / (\<Sum>k<length (x ! i). exp (x ! i ! k)))"
    if "i < num_images l" for i
    using e [OF that] by (simp add: softmax_row_nth) (simp add: softmax_row_def)
  ultimately show "\<exists>v. Softmax_forward h l = Inr (l\<lparr>layer_value := v\<rparr>) \<and>
        (\<forall>i<num_images l. length (v ! i) = length (x ! i) \<and>
           (\<forall>j<length (x ! i). v ! i ! j = exp (x ! i ! j) / (\<Sum>k<length (x ! i). exp (x ! i ! k))))"
    by blast
qed

lemma example_softmax_forward:
  "Softmax_forward [example_input, example_hidden] example_softmax =
     Inr (example_softmax\<lparr>layer_value := [[1 / 2, 1 / 2]]\<rparr>)"
  by (simp add: Softmax_forward_def read_value_def subscript_def set_row_def softmax_row_def
      upt_rec example_defs)

theorem softmax_forward_value_witness:
  "input_layer example_softmax = Some 1 \<and>
   read_value ([example_input, example_hidden] ! 1) = Inr (Array2 [[0, 0]]) \<and>
   softmax_shapes example_softmax [[0, 0]] \<and>
   Softmax_forward [example_input, example_hidden] example_softmax =
     Inr (example_softmax\<lparr>layer_value := [[1 / 2, 1 / 2]]\<rparr>)"
proof -
  have 1: "input_layer example_softmax = Some 1" by (simp add: example_defs)
  have 2: "read_value ([example_input, example_hidden] ! 1) = Inr (Array2 [[0, 0]])"
    by (simp add: read_value_def example_defs)
  have 3: "softmax_shapes example_softmax [[0, 0]]"
    by (simp add: softmax_shapes_def example_defs)
  from softmax_forward_value [where l = example_softmax and p = 1
      and h = "[example_input, example_hidden]" and x = "[[0, 0]]"] 1 2 3
  have ex: "\<exists>v. Softmax_forward [example_input, example_hidden] example_softmax =
      Inr (example_softmax\<lparr>layer_value := v\<rparr>)"
    by blast
  show ?thesis using ex 1 2 3 example_softmax_forward by simp
qed

text \<open>The inputs of \<open>CrossEntropy.forward\<close> for which the exact arithmetic is that of the
  source: a batch that is not empty, rows of targets and of predictions of equal length,
  predictions that are positive, and \<open>tmp_value\<close> of shape \<open>(num_images,)\<close>.\<close>

definition cross_entropy_inputs :: "layer \<Rightarrow> real list list \<Rightarrow> real list list \<Rightarrow> bool" where
  "cross_entropy_inputs l y s =
     (0 < num_images l \<and> length (tmp_value l) = num_images l \<and>
      list_all (\<lambda>i. i < length y \<and> i < length s \<and> length (y ! i) = length (s ! i) \<and>
          list_all (\<lambda>v. 0 < v) (s ! i))
        [0..<num_images l])"

definition cross_entropy_row :: "real list \<Rightarrow> real list \<Rightarrow> real" where
  "cross_entropy_row y s = - (\<Sum>c<length s. y ! c * ln (s ! c))"

lemma cross_entropy_rows_spec:
  assumes "distinct idx"
    and "\<And>i. i \<in> set idx \<Longrightarrow> i < length y \<and> i < length s \<and> i < length t \<and>
          length (y ! i) = length (s ! i)"
  shows "\<exists>t'. cross_entropy_rows (Some y) (Array2 s) idx t = Inr t' \<and> length t' = length t \<and>
           (\<forall>i. t' ! i = (if i \<in> set idx then cross_entropy_row (y ! i) (s ! i) else t ! i))"
  using assms
proof (induction idx arbitrary: t)
  case Nil
  then show ?case by simp
next
  case (Cons i rest)
  have a: "i < length y" "i < length s" "i < length t" "length (y ! i) = length (s ! i)"
    using Cons.prems(2) [of i] by simp_all
  let ?prods = "map (\<lambda>c. y ! i ! c * map ln (s ! i) ! c) [0..<length (y ! i)]"
  have b: "broadcast2 (*) (y ! i) (map ln (s ! i)) = Inr ?prods"
    using a(4) by (simp add: broadcast2_def)
  have "?prods = map (\<lambda>c. y ! i ! c * ln (s ! i ! c)) [0..<length (s ! i)]"
    using a(4) by (intro nth_equalityI) simp_all
  then have sp: "- sum_list ?prods = cross_entropy_row (y ! i) (s ! i)"
    by (simp add: cross_entropy_row_def sum_list_upt)
  have step: "cross_entropy_rows (Some y) (Array2 s) (i # rest) t =
      cross_entropy_rows (Some y) (Array2 s) rest (t[i := cross_entropy_row (y ! i) (s ! i)])"
    using a(1,2,3) b sp by (simp add: nth_row_def subscript_def)
  have d: "distinct rest" and ni: "i \<notin> set rest" using Cons.prems(1) by simp_all
  have p: "i' < length y \<and> i' < length s \<and>
      i' < length (t[i := cross_entropy_row (y ! i) (s ! i)]) \<and> length (y ! i') = length (s ! i')"
    if "i' \<in> set rest" for i'
    using Cons.prems(2) [of i'] that by simp
  from Cons.IH [OF d p] obtain t' where
    r: "cross_entropy_rows (Some y) (Array2 s) rest (t[i := cross_entropy_row (y ! i) (s ! i)]) = Inr t'"
    and l: "length t' = length t"
    and e: "\<And>k. t' ! k = (if k \<in> set rest then cross_entropy_row (y ! k) (s ! k)
              else t[i := cross_entropy_row (y ! i) (s ! i)] ! k)"
    by auto
  have "t' ! k = (if k \<in> set (i # rest) then cross_entropy_row (y ! k) (s ! k) else t ! k)" for k
    using e [of k] a(3) by (cases "k = i") auto
  with step r l show ?case by simp
qed

lemma np_mean_sum: "np_mean t = (\<Sum>i<length t. t ! i) / real (length t)"
proof -
  have "t = map (\<lambda>i. t ! i) [0..<length t]" by (simp add: map_nth)
  then have "sum_list t = (\<Sum>i<length t. t ! i)"
    using sum_list_upt [of "\<lambda>i. t ! i" "length t"] by simp
  then show ?thesis by (simp add: np_mean_def)
qed

text \<open>
  Claim C3. Let the predecessor's \<open>value\<close> be an array of positive numbers with a row for
  every sample, let the targets have been injected with rows of the same length, and let the
  batch not be empty. Then \<open>CrossEntropy.forward\<close> returns, leaves in \<open>tmp_value[i]\<close>
  minus the sum over the classes \<open>c\<close> of \<open>ideal_output[i][c]\<close> times the natural
  logarithm of the predecessor's \<open>value[i][c]\<close>, and in \<open>value\<close> the mean of
  \<open>tmp_value\<close>.
\<close>

theorem cross_entropy_forward_value:
  "input_layer l = Some p \<and> read_value (h ! p) = Inr (Array2 s) \<and> ideal_output l = Some y \<and>
   cross_entropy_inputs l y s \<longrightarrow>
     (\<exists>t. CrossEntropy_forward h l =
          Inr (l\<lparr>softmax := Array2 s, tmp_value := t,
                 loss_value := Some ((\<Sum>i<num_images l. t ! i) / real (num_images l))\<rparr>) \<and>
        length t = num_images l \<and>
        (\<forall>i<num_images l. t ! i = - (\<Sum>c<length (s ! i). y ! i ! c * ln (s ! i ! c))))"
proof
  assume a: "input_layer l = Some p \<and> read_value (h ! p) = Inr (Array2 s) \<and>
    ideal_output l = Some y \<and> cross_entropy_inputs l y s"
  then have len: "length (tmp_value l) = num_images l"
    by (simp add: cross_entropy_inputs_def)
  have sh: "i < length y \<and> i < length s \<and> length (y ! i) = length (s ! i)"
    if "i < num_images l" for i
    using a that unfolding cross_entropy_inputs_def list_all_iff by simp
  have "\<exists>t'. cross_entropy_rows (Some y) (Array2 s) [0..<num_images l] (tmp_value l) = Inr t' \<and>
      length t' = length (tmp_value l) \<and>
      (\<forall>i. t' ! i = (if i \<in> set [0..<num_images l] then cross_entropy_row (y ! i) (s ! i)
                     else tmp_value l ! i))"
  proof (rule cross_entropy_rows_spec)
    show "distinct [0..<num_images l]" by simp
    show "i < length y \<and> i < length s \<and> i < length (tmp_value l) \<and>
        length (y ! i) = length (s ! i)" if "i \<in> set [0..<num_images l]" for i
      using sh [of i] that len by simp
  qed
  then obtain t where r: "cross_entropy_rows (Some y) (Array2 s) [0..<num_images l] (tmp_value l)
        = Inr t"
    and lt: "length t = num_images l"
    and e: "\<And>i. i < num_images l \<Longrightarrow> t ! i = cross_entropy_row (y ! i) (s ! i)"
    using len by (simp split: if_splits)
  have "CrossEntropy_forward h l =
      Inr (l\<lparr>softmax := Array2 s, tmp_value := t,
             loss_value := Some ((\<Sum>i<num_images l. t ! i) / real (num_images l))\<rparr>)"
    using a r by (simp add: CrossEntropy_forward_def np_mean_sum lt)
  moreover have "\<forall>i<num_images l. t ! i = - (\<Sum>c<length (s ! i). y ! i ! c * ln (s ! i ! c))"
    using e by (simp add: cross_entropy_row_def)
  ultimately show "\<exists>t. CrossEntropy_forward h l =
          Inr (l\<lparr>softmax := Array2 s, tmp_value := t,
                 loss_value := Some ((\<Sum>i<num_images l. t ! i) / real (num_images l))\<rparr>) \<and>
        length t = num_images l \<and>
        (\<forall>i<num_images l. t ! i = - (\<Sum>c<length (s ! i). y ! i ! c * ln (s ! i ! c)))"
    using lt by blast
qed

definition example_softmax_half :: layer where
  "example_softmax_half = example_softmax\<lparr>layer_value := [[1 / 2, 1 / 2]]\<rparr>"

definition example_cross_entropy_fed :: layer where
  "example_cross_entropy_fed = example_cross_entropy\<lparr>ideal_output := Some [[1, 0]]\<rparr>"

lemma example_cross_entropy_forward:
  "CrossEntropy_forward [example_input, example_hidden, example_softmax_half]
     example_cross_entropy_fed =
   Inr (example_cross_entropy_fed\<lparr>softmax := Array2 [[1 / 2, 1 / 2]], tmp_value := [- ln (1 / 2)],
          loss_value := Some (- ln (1 / 2))\<rparr>)"
  by (simp add: CrossEntropy_forward_def read_value_def subscript_def nth_row_def broadcast2_def
      np_mean_def upt_rec example_softmax_half_def example_cross_entropy_fed_def example_defs)

theorem cross_entropy_forward_value_witness:
  "input_layer example_cross_entropy_fed = Some 2 \<and>
   read_value ([example_input, example_hidden, example_softmax_half] ! 2) =
     Inr (Array2 [[1 / 2, 1 / 2]]) \<and>
   ideal_output example_cross_entropy_fed = Some [[1, 0]] \<and>
   cross_entropy_inputs example_cross_entropy_fed [[1, 0]] [[1 / 2, 1 / 2]] \<and>
   CrossEntropy_forward [example_input, example_hidden, example_softmax_half]
     example_cross_entropy_fed =
   Inr (example_cross_entropy_fed\<lparr>softmax := Array2 [[1 / 2, 1 / 2]], tmp_value := [- ln (1 / 2)],
          loss_value := Some (- ln (1 / 2))\<rparr>)"
proof -
  have 1: "input_layer example_cross_entropy_fed = Some 2"
    by (simp add: example_cross_entropy_fed_def example_defs)
  have 2: "read_value ([example_input, example_hidden, example_softmax_half] ! 2) =
      Inr (Array2 [[1 / 2, 1 / 2]])"
    by (simp add: read_value_def example_softmax_half_def example_defs)
  have 3: "ideal_output example_cross_entropy_fed = Some [[1, 0]]"
    by (simp add: example_cross_entropy_fed_def)
  have 4: "cross_entropy_inputs example_cross_entropy_fed [[1, 0]] [[1 / 2, 1 / 2]]"
    by (simp add: cross_entropy_inputs_def example_cross_entropy_fed_def example_defs)
  from cross_entropy_forward_value [where l = example_cross_entropy_fed and p = 2
      and h = "[example_input, example_hidden, example_softmax_half]"
      and s = "[[1 / 2, 1 / 2]]" and y = "[[1, 0]]"] 1 2 3 4
  have ex: "\<exists>t. CrossEntropy_forward [example_input, example_hidden, example_softmax_half]
        example_cross_entropy_fed =
      Inr (example_cross_entropy_fed\<lparr>softmax := Array2 [[1 / 2, 1 / 2]], tmp_value := t,
             loss_value := Some ((\<Sum>i<num_images example_cross_entropy_fed. t ! i) /
               real (num_images example_cross_entropy_fed))\<rparr>)"
    by blast
  show ?thesis using ex 1 2 3 4 example_cross_entropy_forward by simp
qed

definition sgd_step :: "real \<Rightarrow> ndarray \<Rightarrow> ndarray \<Rightarrow> ndarray" where
  "sgd_step learning_rate t g =
     t\<lparr>entries := map (\<lambda>j. entries t ! j - learning_rate * entries g ! j) [0..<length (entries t)]\<rparr>"

lemma sgd_update_spec:
  assumes "distinct idx" and "\<And>n. n \<in> set idx \<Longrightarrow> n < length ts \<and> n < length ps"
  shows "\<exists>ts'. sgd_update lr ps idx ts = Inr ts' \<and> length ts' = length ts \<and>
           (\<forall>n. ts' ! n = (if n \<in> set idx \<and> shape (ts ! n) = shape (ps ! n)
                           then sgd_step lr (ts ! n) (ps ! n) else ts ! n))"
  using assms
proof (induction idx arbitrary: ts)
  case Nil
  then show ?case by simp
next
  case (Cons n rest)
  have a: "n < length ts" "n < length ps" using Cons.prems(2) [of n] by simp_all
  have d: "distinct rest" and ni: "n \<notin> set rest" using Cons.prems(1) by simp_all
  define ts1 where "ts1 = (if shape (ts ! n) = shape (ps ! n)
      then ts[n := sgd_step lr (ts ! n) (ps ! n)] else ts)"
  have step: "sgd_update lr ps (n # rest) ts = sgd_update lr ps rest ts1"
    using a by (simp add: ts1_def sgd_step_def)
  have l1: "length ts1 = length ts" by (simp add: ts1_def)
  have p: "m < length ts1 \<and> m < length ps" if "m \<in> set rest" for m
    using Cons.prems(2) [of m] that l1 by simp
  from Cons.IH [OF d p] obtain ts' where
    r: "sgd_update lr ps rest ts1 = Inr ts'" and l: "length ts' = length ts1"
    and e: "\<And>m. ts' ! m = (if m \<in> set rest \<and> shape (ts1 ! m) = shape (ps ! m)
                           then sgd_step lr (ts1 ! m) (ps ! m) else ts1 ! m)"
    by blast
  have "ts' ! m = (if m \<in> set (n # rest) \<and> shape (ts ! m) = shape (ps ! m)
                   then sgd_step lr (ts ! m) (ps ! m) else ts ! m)" for m
  proof (cases "m = n")
    case True
    then show ?thesis using e [of m] ni a(1) by (simp add: ts1_def)
  next
    case False
    then have "ts1 ! m = ts ! m" by (simp add: ts1_def)
    then show ?thesis using e [of m] False by simp
  qed
  with step r l l1 show ?case by simp
qed

text \<open>
  Claim C7. When there is a harvested gradient for every position of \<open>trainables\<close>, the
  update loop of \<open>train_SGD\<close> raises nothing. At a position where the two shapes are
  equal it subtracts \<open>learning_rate\<close> times every entry of the gradient from the entry of
  the trainable and keeps the shape; at a position where the shapes differ it leaves the
  trainable as it was.
\<close>

theorem sgd_update_positions:
  "length trainables \<le> length partials \<longrightarrow>
     (\<exists>ts'. sgd_update learning_rate partials [0..<length trainables] trainables = Inr ts' \<and>
        length ts' = length trainables \<and>
        (\<forall>n<length trainables.
           (shape (trainables ! n) = shape (partials ! n) \<longrightarrow>
              shape (ts' ! n) = shape (trainables ! n) \<and>
              length (entries (ts' ! n)) = length (entries (trainables ! n)) \<and>
              (\<forall>j<length (entries (trainables ! n)).
                 entries (ts' ! n) ! j =
                   entries (trainables ! n) ! j - learning_rate * entries (partials ! n) ! j)) \<and>
           (shape (trainables ! n) \<noteq> shape (partials ! n) \<longrightarrow> ts' ! n = trainables ! n)))"
proof
  assume le: "length trainables \<le> length partials"
  have "\<exists>ts'. sgd_update learning_rate partials [0..<length trainables] trainables = Inr ts' \<and>
      length ts' = length trainables \<and>
      (\<forall>n. ts' ! n = (if n \<in> set [0..<length trainables] \<and>
                           shape (trainables ! n) = shape (partials ! n)
                        then sgd_step learning_rate (trainables ! n) (partials ! n)
                        else trainables ! n))"
  proof (rule sgd_update_spec)
    show "distinct [0..<length trainables]" by simp
    show "n < length trainables \<and> n < length partials" if "n \<in> set [0..<length trainables]" for n
      using that le by simp
  qed
  then obtain ts' where
    r: "sgd_update learning_rate partials [0..<length trainables] trainables = Inr ts'"
    and l: "length ts' = length trainables"
    and e0: "\<And>n. ts' ! n = (if n \<in> set [0..<length trainables] \<and>
                           shape (trainables ! n) = shape (partials ! n)
                        then sgd_step learning_rate (trainables ! n) (partials ! n)
                        else trainables ! n)"
    by blast
  have e: "ts' ! n =
        (if shape (trainables ! n) = shape (partials ! n)
         then sgd_step learning_rate (trainables ! n) (partials ! n) else trainables ! n)"
    if "n < length trainables" for n
    using e0 [of n] that by simp
  have "(shape (trainables ! n) = shape (partials ! n) \<longrightarrow>
              shape (ts' ! n) = shape (trainables ! n) \<and>
              length (entries (ts' ! n)) = length (entries (trainables ! n)) \<and>
              (\<forall>j<length (entries (trainables ! n)).
                 entries (ts' ! n) ! j =
                   entries (trainables ! n) ! j - learning_rate * entries (partials ! n) ! j)) \<and>
           (shape (trainables ! n) \<noteq> shape (partials ! n) \<longrightarrow> ts' ! n = trainables ! n)"
    if "n < length trainables" for n
    using e [OF that] by (simp add: sgd_step_def)
  with r l show "\<exists>ts'. sgd_update learning_rate partials [0..<length trainables] trainables = Inr ts' \<and>
        length ts' = length trainables \<and>
        (\<forall>n<length trainables.
           (shape (trainables ! n) = shape (partials ! n) \<longrightarrow>
              shape (ts' ! n) = shape (trainables ! n) \<and>
              length (entries (ts' ! n)) = length (entries (trainables ! n)) \<and>
              (\<forall>j<length (entries (trainables ! n)).
                 entries (ts' ! n) ! j =
                   entries (trainables ! n) ! j - learning_rate * entries (partials ! n) ! j)) \<and>
           (shape (trainables ! n) \<noteq> shape (partials ! n) \<longrightarrow> ts' ! n = trainables ! n))"
    by blast
qed

definition example_trainables :: "ndarray list" where
  "example_trainables = [\<lparr>shape = [2], entries = [1, 2]\<rparr>, \<lparr>shape = [1, 2], entries = [5, 6]\<rparr>]"

definition example_partials :: "ndarray list" where
  "example_partials = [\<lparr>shape = [2], entries = [10, 20]\<rparr>, \<lparr>shape = [2], entries = [1, 1]\<rparr>]"

lemma example_sgd_update:
  "sgd_update (1 / 10) example_partials [0..<length example_trainables] example_trainables =
     Inr [\<lparr>shape = [2], entries = [0, 0]\<rparr>, \<lparr>shape = [1, 2], entries = [5, 6]\<rparr>]"
  by (simp add: example_trainables_def example_partials_def upt_rec)

theorem sgd_update_positions_witness:
  "length example_trainables \<le> length example_partials \<and>
   sgd_update (1 / 10) example_partials [0..<length example_trainables] example_trainables =
     Inr [\<lparr>shape = [2], entries = [0, 0]\<rparr>, \<lparr>shape = [1, 2], entries = [5, 6]\<rparr>]"
proof -
  have 1: "length example_trainables \<le> length example_partials"
    by (simp add: example_trainables_def example_partials_def)
  from sgd_update_positions [of example_trainables example_partials "1 / 10"] 1
  have ex: "\<exists>ts'. sgd_update (1 / 10) example_partials [0..<length example_trainables]
      example_trainables = Inr ts'"
    by blast
  show ?thesis using ex 1 example_sgd_update by simp
qed

definition broadcast_row :: "real list \<Rightarrow> nat \<Rightarrow> real list" where
  "broadcast_row r w = (if length r = w then r else replicate w (r ! 0))"

lemma length_broadcast_row: "length (broadcast_row r w) = w"
  by (simp add: broadcast_row_def)

lemma set_row_Inr:
  assumes "set_row v i r = Inr v'"
  shows "i < length v" "v' = v[i := broadcast_row r (length (v ! i))]"
    "length r = length (v ! i) \<or> length r = 1"
  using assms by (auto simp: set_row_def broadcast_row_def split: if_splits)

lemma set_row_same:
  assumes "i < length v" "length r = length (v ! i) \<or> length r = 1"
    "v ! i = broadcast_row r (length (v ! i))"
  shows "set_row v i r = Inr v"
proof (cases "length r = length (v ! i)")
  case True
  with assms(3) have "v ! i = r" by (simp add: broadcast_row_def)
  with True assms(1) show ?thesis by (simp add: set_row_def list_update_same_conv)
next
  case False
  with assms(2) have 1: "length r = 1" by simp
  from False assms(3) have "v ! i = replicate (length (v ! i)) (r ! 0)"
    by (simp add: broadcast_row_def)
  then have "v[i := replicate (length (v ! i)) (r ! 0)] = v"
    using assms(1) by (simp add: list_update_same_conv)
  with False 1 assms(1) show ?thesis by (simp add: set_row_def)
qed

text \<open>A loop that assigns to the row of each index a row computed from inputs that the loop
  does not change: the form of the loops of the three \<open>forward\<close> methods that fill
  \<open>value\<close>.\<close>

fun assign_rows :: "(nat \<Rightarrow> py_error + real list) \<Rightarrow> nat list \<Rightarrow> real list list \<Rightarrow>
    py_error + real list list" where
  "assign_rows f [] v = Inr v"
| "assign_rows f (i # rest) v =
     (case f i of
        Inl e \<Rightarrow> Inl e
      | Inr r \<Rightarrow> (case set_row v i r of Inl e \<Rightarrow> Inl e | Inr v' \<Rightarrow> assign_rows f rest v'))"

definition settled :: "(nat \<Rightarrow> py_error + real list) \<Rightarrow> nat list \<Rightarrow> real list list \<Rightarrow> bool" where
  "settled f idx v = (\<forall>i\<in>set idx. i < length v \<and>
     (\<exists>r. f i = Inr r \<and> (length r = length (v ! i) \<or> length r = 1) \<and>
        v ! i = broadcast_row r (length (v ! i))))"

lemma assign_rows_result:
  assumes "assign_rows f idx v = Inr v'"
  shows "length v' = length v \<and> (\<forall>k. length (v' ! k) = length (v ! k)) \<and>
    (\<forall>k. k \<notin> set idx \<longrightarrow> v' ! k = v ! k) \<and> settled f idx v'"
  using assms
proof (induction idx arbitrary: v)
  case Nil
  then show ?case by (simp add: settled_def)
next
  case (Cons i rest)
  from Cons.prems obtain r v1 where fi: "f i = Inr r" and s: "set_row v i r = Inr v1"
    and rst: "assign_rows f rest v1 = Inr v'"
    by (auto split: sum.splits)
  note sr = set_row_Inr [OF s]
  have w1: "length (v1 ! k) = length (v ! k)" for k
    using sr(1,2) by (cases "k = i") (simp_all add: length_broadcast_row)
  have l1: "length v1 = length v" using sr(2) by simp
  from Cons.IH [OF rst] have l: "length v' = length v1"
    and w: "\<And>k. length (v' ! k) = length (v1 ! k)"
    and u: "\<And>k. k \<notin> set rest \<Longrightarrow> v' ! k = v1 ! k"
    and st: "settled f rest v'"
    by blast+
  have "i < length v' \<and>
     (\<exists>r. f i = Inr r \<and> (length r = length (v' ! i) \<or> length r = 1) \<and>
        v' ! i = broadcast_row r (length (v' ! i)))"
  proof (cases "i \<in> set rest")
    case True
    with st show ?thesis unfolding settled_def by blast
  next
    case False
    from u [OF False] sr(1,2) have "v' ! i = broadcast_row r (length (v ! i))" by simp
    moreover have "length (v' ! i) = length (v ! i)" using w [of i] w1 [of i] by simp
    ultimately show ?thesis using fi sr(1,3) l l1 by simp
  qed
  with st have "settled f (i # rest) v'" unfolding settled_def by simp
  moreover have "v' ! k = v ! k" if "k \<notin> set (i # rest)" for k
    using u [of k] that sr(2) by simp
  ultimately show ?case using l l1 w w1 by simp
qed

lemma assign_rows_settled:
  assumes "settled f idx v"
  shows "assign_rows f idx v = Inr v"
  using assms
proof (induction idx)
  case Nil
  then show ?case by simp
next
  case (Cons i rest)
  from Cons.prems obtain r where i: "i < length v" and fi: "f i = Inr r"
    and c: "length r = length (v ! i) \<or> length r = 1"
    and e: "v ! i = broadcast_row r (length (v ! i))"
    unfolding settled_def by auto
  have "settled f rest v" using Cons.prems unfolding settled_def by simp
  from Cons.IH [OF this] fi set_row_same [OF i c e] show ?case by simp
qed

lemma assign_rows_idem: "assign_rows f idx v = Inr v' \<Longrightarrow> assign_rows f idx v' = Inr v'"
  using assign_rows_result [of f idx v v'] assign_rows_settled [of f idx v'] by blast

definition affine_rhs :: "nat \<Rightarrow> pyval option \<Rightarrow> real list list list \<Rightarrow> real list list \<Rightarrow> nat \<Rightarrow>
    py_error + real list" where
  "affine_rhs n x w b i =
     (case subscript_opt x i of
        Inl e \<Rightarrow> Inl e
      | Inr xi \<Rightarrow>
          (case nth_row w i of
             Inl e \<Rightarrow> Inl e
           | Inr wi \<Rightarrow>
               (case dot_vm n xi wi of
                  Inl e \<Rightarrow> Inl e
                | Inr hh \<Rightarrow>
                    (case nth_row b i of Inl e \<Rightarrow> Inl e | Inr bi \<Rightarrow> broadcast2 (+) hh bi))))"

lemma affine_rows_assign: "affine_rows n x w b idx v = assign_rows (affine_rhs n x w b) idx v"
  by (induction idx arbitrary: v) (auto simp: affine_rhs_def split: sum.splits)

definition softmax_rhs :: "pyval \<Rightarrow> nat \<Rightarrow> py_error + real list" where
  "softmax_rhs x i = (case subscript x i of Inl e \<Rightarrow> Inl e | Inr xi \<Rightarrow> Inr (softmax_row xi))"

lemma softmax_rows_assign: "softmax_rows x idx v = assign_rows (softmax_rhs x) idx v"
  by (induction idx arbitrary: v) (auto simp: softmax_rhs_def split: sum.splits)

fun assign_entries :: "(nat \<Rightarrow> py_error + real) \<Rightarrow> nat list \<Rightarrow> real list \<Rightarrow> py_error + real list" where
  "assign_entries f [] t = Inr t"
| "assign_entries f (i # rest) t =
     (case f i of
        Inl e \<Rightarrow> Inl e
      | Inr x \<Rightarrow> if length t \<le> i then Inl IndexError else assign_entries f rest (t[i := x]))"

lemma assign_entries_result:
  assumes "assign_entries f idx t = Inr t'"
  shows "length t' = length t \<and> (\<forall>k. k \<notin> set idx \<longrightarrow> t' ! k = t ! k) \<and>
    (\<forall>i\<in>set idx. i < length t \<and> f i = Inr (t' ! i))"
  using assms
proof (induction idx arbitrary: t)
  case Nil
  then show ?case by simp
next
  case (Cons i rest)
  from Cons.prems obtain x where fi: "f i = Inr x" and i: "i < length t"
    and rst: "assign_entries f rest (t[i := x]) = Inr t'"
    by (auto split: sum.splits if_splits)
  from Cons.IH [OF rst] have l: "length t' = length t"
    and u: "\<And>k. k \<notin> set rest \<Longrightarrow> t' ! k = t[i := x] ! k"
    and st: "\<And>j. j \<in> set rest \<Longrightarrow> j < length t \<and> f j = Inr (t' ! j)"
    by auto
  have "f i = Inr (t' ! i)"
  proof (cases "i \<in> set rest")
    case True
    with st show ?thesis by blast
  next
    case False
    from u [OF False] i fi show ?thesis by simp
  qed
  moreover have "t' ! k = t ! k" if "k \<notin> set (i # rest)" for k
    using u [of k] that by simp
  ultimately show ?case using l i st by auto
qed

lemma assign_entries_settled:
  assumes "\<And>i. i \<in> set idx \<Longrightarrow> i < length t \<and> f i = Inr (t ! i)"
  shows "assign_entries f idx t = Inr t"
  using assms
proof (induction idx)
  case Nil
  then show ?case by simp
next
  case (Cons i rest)
  have "i < length t" "f i = Inr (t ! i)" using Cons.prems [of i] by simp_all
  moreover have "assign_entries f rest t = Inr t"
    by (rule Cons.IH) (use Cons.prems in simp)
  ultimately show ?case by simp
qed

lemma assign_entries_idem:
  assumes "assign_entries f idx t = Inr t'"
  shows "assign_entries f idx t' = Inr t'"
proof (rule assign_entries_settled)
  fix i assume "i \<in> set idx"
  with assign_entries_result [OF assms] show "i < length t' \<and> f i = Inr (t' ! i)" by simp
qed

definition cross_entropy_rhs :: "real list list option \<Rightarrow> pyval \<Rightarrow> nat \<Rightarrow> py_error + real" where
  "cross_entropy_rhs ideal sm i =
     (case ideal of
        None \<Rightarrow> Inl TypeError
      | Some y \<Rightarrow>
          (case nth_row y i of
             Inl e \<Rightarrow> Inl e
           | Inr yi \<Rightarrow>
               (case subscript sm i of
                  Inl e \<Rightarrow> Inl e
                | Inr si \<Rightarrow>
                    (case broadcast2 (*) yi (map ln si) of
                       Inl e \<Rightarrow> Inl e
                     | Inr prods \<Rightarrow> Inr (- sum_list prods)))))"

lemma cross_entropy_rows_assign:
  "cross_entropy_rows ideal sm idx t = assign_entries (cross_entropy_rhs ideal sm) idx t"
  by (induction idx arbitrary: t) (auto simp: cross_entropy_rhs_def split: sum.splits option.splits)

lemma Input_forward_idem:
  assumes "Input_forward l = Inr l'"
  shows "Input_forward l' = Inr l'"
proof -
  from assms obtain v where
    r: "affine_rows (num_neurons l) (X l) (W l) (biases l) [0..<num_images l] (layer_value l) = Inr v"
    and l': "l' = l\<lparr>layer_value := v\<rparr>"
    by (auto simp: Input_forward_def split: sum.splits)
  from r have "affine_rows (num_neurons l) (X l) (W l) (biases l) [0..<num_images l] v = Inr v"
    unfolding affine_rows_assign by (rule assign_rows_idem)
  then show ?thesis by (simp add: Input_forward_def l')
qed

lemma Hidden_forward_idem:
  assumes "Hidden_forward h l = Inr l'"
  shows "Hidden_forward h l' = Inr l'"
proof -
  from assms obtain p x v where p: "input_layer l = Some p" and x: "read_value (h ! p) = Inr x"
    and r: "affine_rows (num_classes l) (Some x) (W l) (biases l) [0..<num_images l]
              (layer_value l) = Inr v"
    and l': "l' = l\<lparr>X := Some x, layer_value := v\<rparr>"
    by (auto simp: Hidden_forward_def split: sum.splits option.splits)
  from r have "affine_rows (num_classes l) (Some x) (W l) (biases l) [0..<num_images l] v = Inr v"
    unfolding affine_rows_assign by (rule assign_rows_idem)
  then show ?thesis using p x by (simp add: Hidden_forward_def l')
qed

lemma Softmax_forward_idem:
  assumes "Softmax_forward h l = Inr l'"
  shows "Softmax_forward h l' = Inr l'"
proof -
  from assms obtain p x v where p: "input_layer l = Some p" and x: "read_value (h ! p) = Inr x"
    and r: "softmax_rows x [0..<num_images l] (layer_value l) = Inr v"
    and l': "l' = l\<lparr>layer_value := v\<rparr>"
    by (auto simp: Softmax_forward_def split: sum.splits option.splits)
  from r have "softmax_rows x [0..<num_images l] v = Inr v"
    unfolding softmax_rows_assign by (rule assign_rows_idem)
  then show ?thesis using p x by (simp add: Softmax_forward_def l')
qed

lemma CrossEntropy_forward_idem:
  assumes "CrossEntropy_forward h l = Inr l'"
  shows "CrossEntropy_forward h l' = Inr l'"
proof -
  from assms obtain p sm t where p: "input_layer l = Some p" and x: "read_value (h ! p) = Inr sm"
    and r: "cross_entropy_rows (ideal_output l) sm [0..<num_images l] (tmp_value l) = Inr t"
    and l': "l' = l\<lparr>softmax := sm, tmp_value := t, loss_value := Some (np_mean t)\<rparr>"
    by (auto simp: CrossEntropy_forward_def split: sum.splits option.splits)
  from r have "cross_entropy_rows (ideal_output l) sm [0..<num_images l] t = Inr t"
    unfolding cross_entropy_rows_assign by (rule assign_entries_idem)
  then show ?thesis using p x by (simp add: CrossEntropy_forward_def l')
qed

lemma forward_kind_input:
  "Input_forward l = Inr l' \<Longrightarrow> kind l' = kind l \<and> input_layer l' = input_layer l"
  "Hidden_forward h l = Inr l' \<Longrightarrow> kind l' = kind l \<and> input_layer l' = input_layer l"
  "Softmax_forward h l = Inr l' \<Longrightarrow> kind l' = kind l \<and> input_layer l' = input_layer l"
  "CrossEntropy_forward h l = Inr l' \<Longrightarrow> kind l' = kind l \<and> input_layer l' = input_layer l"
  by (auto simp: Input_forward_def Hidden_forward_def Softmax_forward_def
      CrossEntropy_forward_def split: sum.splits option.splits)

lemma forward_heap_cong:
  assumes "\<And>p. input_layer l = Some p \<Longrightarrow> h' ! p = h ! p"
  shows "Hidden_forward h' l = Hidden_forward h l" "Softmax_forward h' l = Softmax_forward h l"
    "CrossEntropy_forward h' l = CrossEntropy_forward h l"
proof -
  show "Hidden_forward h' l = Hidden_forward h l"
  proof (cases "input_layer l")
    case None
    then show ?thesis by (simp add: Hidden_forward_def)
  next
    case (Some p)
    with assms [OF Some] show ?thesis by (simp add: Hidden_forward_def)
  qed
  show "Softmax_forward h' l = Softmax_forward h l"
  proof (cases "input_layer l")
    case None
    then show ?thesis by (simp add: Softmax_forward_def)
  next
    case (Some p)
    with assms [OF Some] show ?thesis by (simp add: Softmax_forward_def)
  qed
  show "CrossEntropy_forward h' l = CrossEntropy_forward h l"
  proof (cases "input_layer l")
    case None
    then show ?thesis by (simp add: CrossEntropy_forward_def)
  next
    case (Some p)
    with assms [OF Some] show ?thesis by (simp add: CrossEntropy_forward_def)
  qed
qed

text \<open>
  Claim C8. Let \<open>forward\<close> of a layer of any of the four classes return, the layer not
  being its own predecessor. Then a second \<open>forward\<close> right after it returns too and
  leaves every attribute of every object, \<open>value\<close> among them, as the first call left
  it.
\<close>

theorem forward_twice:
  "n < length h \<and> input_layer (h ! n) \<noteq> Some n \<and> forward h n = Inr h1 \<longrightarrow>
     forward h1 n = Inr h1"
proof
  assume a: "n < length h \<and> input_layer (h ! n) \<noteq> Some n \<and> forward h n = Inr h1"
  then have n: "n < length h" and self: "input_layer (h ! n) \<noteq> Some n"
    and f: "forward h n = Inr h1" by simp_all
  define m where "m = (case kind (h ! n) of
      Input \<Rightarrow> Input_forward (h ! n)
    | Hidden \<Rightarrow> Hidden_forward h (h ! n)
    | Softmax \<Rightarrow> Softmax_forward h (h ! n)
    | CrossEntropy \<Rightarrow> CrossEntropy_forward h (h ! n))"
  from f obtain l' where ml: "m = Inr l'" and h1: "h1 = h[n := l']"
    by (auto simp: forward_def m_def split: sum.splits)
  have c: "kind (h ! n) = Input \<Longrightarrow> Input_forward (h ! n) = Inr l'"
      "kind (h ! n) = Hidden \<Longrightarrow> Hidden_forward h (h ! n) = Inr l'"
      "kind (h ! n) = Softmax \<Longrightarrow> Softmax_forward h (h ! n) = Inr l'"
      "kind (h ! n) = CrossEntropy \<Longrightarrow> CrossEntropy_forward h (h ! n) = Inr l'"
    using ml by (simp_all add: m_def)
  have at: "h1 ! n = l'" using n by (simp add: h1)
  have upd: "h1[n := l'] = h1" by (simp add: h1)
  have ki: "kind l' = kind (h ! n) \<and> input_layer l' = input_layer (h ! n)"
    by (cases "kind (h ! n)") (use c forward_kind_input in blast)+
  have pred: "h1 ! p = h ! p" if "input_layer l' = Some p" for p
  proof -
    from that ki self have "p \<noteq> n" by auto
    then show ?thesis by (simp add: h1)
  qed
  have "(case kind l' of
           Input \<Rightarrow> Input_forward l'
         | Hidden \<Rightarrow> Hidden_forward h1 l'
         | Softmax \<Rightarrow> Softmax_forward h1 l'
         | CrossEntropy \<Rightarrow> CrossEntropy_forward h1 l') = Inr l'"
  proof (cases "kind (h ! n)")
    case Input
    from Input_forward_idem [OF c(1) [OF Input]] Input ki show ?thesis by simp
  next
    case Hidden
    from Hidden_forward_idem [OF c(2) [OF Hidden]] forward_heap_cong(1) [of l' h1 h, OF pred]
      Hidden ki show ?thesis by simp
  next
    case Softmax
    from Softmax_forward_idem [OF c(3) [OF Softmax]] forward_heap_cong(2) [of l' h1 h, OF pred]
      Softmax ki show ?thesis by simp
  next
    case CrossEntropy
    from CrossEntropy_forward_idem [OF c(4) [OF CrossEntropy]]
      forward_heap_cong(3) [of l' h1 h, OF pred] CrossEntropy ki show ?thesis by simp
  qed
  then show "forward h1 n = Inr h1"
    unfolding forward_def at by (simp add: upd)
qed

lemma example_forward_softmax:
  "forward [example_input, example_hidden, example_softmax] 2 =
     Inr [example_input, example_hidden, example_softmax_half]"
  using example_softmax_forward
  by (simp add: forward_def Softmax_forward_def read_value_def example_softmax_half_def
      example_defs)

theorem forward_twice_witness:
  "2 < length [example_input, example_hidden, example_softmax] \<and>
   input_layer ([example_input, example_hidden, example_softmax] ! 2) \<noteq> Some 2 \<and>
   forward [example_input, example_hidden, example_softmax] 2 =
     Inr [example_input, example_hidden, example_softmax_half] \<and>
   forward [example_input, example_hidden, example_softmax_half] 2 =
     Inr [example_input, example_hidden, example_softmax_half]"
proof -
  have 1: "input_layer ([example_input, example_hidden, example_softmax] ! 2) \<noteq> Some 2"
    by (simp add: example_defs)
  from forward_twice [of 2 "[example_input, example_hidden, example_softmax]"
      "[example_input, example_hidden, example_softmax_half]"] 1 example_forward_softmax
  show ?thesis by simp
qed

end
